theory Spec2Isabelle
  imports Main "HOL-Library.Word"
begin

section \<open>The program: seq\_consistency\_poc.c\<close>

text \<open>
  The program is three threads over four shared \<open>int\<close> cells and four semaphores:
  \<open>main\<close> (the coordinator) and the two workers \<open>thread1Func\<close> and \<open>thread2Func\<close>.
  It is modelled as a labelled transition system. Every C statement of the three
  functions is one program point and one step function case; a schedule picks which
  thread moves next. A blocked call (\<open>sem_wait\<close> on a zero semaphore) is a step that is
  not enabled.

  The hardware is a parameter. Under \<open>SC\<close> a store reaches memory at once, so the runs
  of the model are exactly the interleavings of the statements. Under \<open>TSO\<close> each thread
  has a first-in first-out store buffer: a store is appended to the buffer, a load takes
  the newest buffered value of its own thread for that cell and memory otherwise, a
  buffered store reaches memory in a later \<open>Flush\<close> step, and the semaphore calls (locked
  instructions) run only on an empty buffer.
\<close>

subsection \<open>Data\<close>

type_synonym cint = "32 word"

datatype thread_id = Main_thread | Thread1 | Thread2

text \<open>\<open>int X, Y; int r1, r2;\<close> and the four \<open>sem_t\<close> globals.\<close>

datatype var = X | Y | r1 | r2

datatype sem = beginSema1 | endSema1 | beginSema2 | endSema2

datatype memory_model = SC | TSO

text \<open>The two \<open>printf\<close> formats of \<open>main\<close>, with their arguments.\<close>

datatype out_line =
    NumberOfProcessors cint
  | ReordersDetected cint cint

text \<open>Program points of \<open>main\<close>, in source order (lines 126 to 162).\<close>

datatype main_pc =
    M_printf
  | M_init_begin1 | M_init_begin2 | M_init_end1 | M_init_end2
  | M_create1 | M_create2
  | M_locals
  | M_reset_X | M_reset_Y
  | M_post_begin1 | M_post_begin2
  | M_wait_end1 | M_wait_end2
  | M_check
  | M_incr

text \<open>
  Program points of a worker function (lines 72 to 90 and 99 to 116). \<open>W_unborn\<close> is
  a thread that \<open>pthread_create\<close> has not started.
\<close>

datatype worker_pc =
    W_unborn
  | W_srand | W_affinity
  | W_wait | W_delay | W_store | W_fence | W_load | W_post

text \<open>
  What the operating system and the C library answer: the processor count, whether each
  \<open>sem_init\<close>, \<open>pthread_create\<close> and \<open>pthread_setaffinity_np\<close> call succeeds, the clock
  value each worker seeds \<open>srand\<close> with, the sequence \<open>rand\<close> produces for a seed, and
  the indeterminate contents of the two locals of \<open>main\<close> before their initialisers run.
\<close>

record env =
  mm :: memory_model
  nprocs :: cint
  sem_init_ok :: "sem \<Rightarrow> bool"
  create_ok :: "thread_id \<Rightarrow> bool"
  affinity_ok :: "thread_id \<Rightarrow> bool"
  clock :: "thread_id \<Rightarrow> nat"
  gen :: "nat \<Rightarrow> nat \<Rightarrow> int"
  junk_detected :: cint
  junk_iterations :: cint

record state =
  mem :: "var \<Rightarrow> cint"
  buf :: "thread_id \<Rightarrow> (var \<times> cint) list"
  sems :: "sem \<Rightarrow> nat"
  rng :: "nat \<Rightarrow> int"
  cpu :: "thread_id \<Rightarrow> nat option"
  mpc :: main_pc
  pc1 :: worker_pc
  pc2 :: worker_pc
  detected :: cint
  iterations :: cint
  out :: "out_line list"

text \<open>What a step did; the trace of a run is the list of these, each with its actor.\<close>

datatype event =
    Printf out_line
  | SemInit sem bool
  | Create thread_id bool
  | Locals
  | Srand nat
  | SetAffinity nat bool
  | SemWait sem
  | SemPost sem
  | Rand int
  | Store var cint
  | Fence
  | Load var var cint
  | Check bool
  | Incr
  | Commit var cint

datatype action = Run thread_id | Flush thread_id

subsection \<open>Memory, semaphores and the random number generator\<close>

definition store :: "env \<Rightarrow> thread_id \<Rightarrow> var \<Rightarrow> cint \<Rightarrow> state \<Rightarrow> state" where
  "store e t x v s =
     (case mm e of
        SC \<Rightarrow> s\<lparr>mem := (mem s)(x := v)\<rparr>
      | TSO \<Rightarrow> s\<lparr>buf := (buf s)(t := buf s t @ [(x, v)])\<rparr>)"

definition load :: "thread_id \<Rightarrow> var \<Rightarrow> state \<Rightarrow> cint" where
  "load t x s =
     (case filter (\<lambda>p. fst p = x) (rev (buf s t)) of
        [] \<Rightarrow> mem s x
      | p # _ \<Rightarrow> snd p)"

definition flush :: "thread_id \<Rightarrow> state \<Rightarrow> (event \<times> state) option" where
  "flush t s =
     (case buf s t of
        [] \<Rightarrow> None
      | p # rest \<Rightarrow>
          Some (Commit (fst p) (snd p),
                s\<lparr>mem := (mem s)(fst p := snd p), buf := (buf s)(t := rest)\<rparr>))"

text \<open>\<open>sem_init(&m, 0, 0)\<close>: a failed call leaves the semaphore as it was.\<close>

definition sem_init :: "env \<Rightarrow> sem \<Rightarrow> state \<Rightarrow> state" where
  "sem_init e m s = (if sem_init_ok e m then s\<lparr>sems := (sems s)(m := 0)\<rparr> else s)"

definition sem_wait :: "thread_id \<Rightarrow> sem \<Rightarrow> state \<Rightarrow> state option" where
  "sem_wait t m s =
     (if buf s t = [] \<and> 0 < sems s m
      then Some (s\<lparr>sems := (sems s)(m := sems s m - 1)\<rparr>)
      else None)"

definition sem_post :: "thread_id \<Rightarrow> sem \<Rightarrow> state \<Rightarrow> state option" where
  "sem_post t m s =
     (if buf s t = []
      then Some (s\<lparr>sems := (sems s)(m := Suc (sems s m))\<rparr>)
      else None)"

text \<open>\<open>rand()\<close> takes the next value of the process-wide sequence; \<open>srand\<close> restarts it.\<close>

definition rand :: "state \<Rightarrow> int \<times> state" where
  "rand s = (rng s 0, s\<lparr>rng := (\<lambda>n. rng s (Suc n))\<rparr>)"

definition srand :: "env \<Rightarrow> nat \<Rightarrow> state \<Rightarrow> state" where
  "srand e seed s = s\<lparr>rng := gen e seed\<rparr>"

subsection \<open>The three functions\<close>

text \<open>
  \<open>main\<close>, one case per statement. No return value of \<open>sem_init\<close> or \<open>pthread_create\<close>
  is read: the next program point is the same whether the call succeeded or not.
\<close>

definition main_step :: "env \<Rightarrow> state \<Rightarrow> (event \<times> state) option" where
  "main_step e s =
     (case mpc s of
        M_printf \<Rightarrow>
          Some (Printf (NumberOfProcessors (nprocs e)),
                s\<lparr>out := out s @ [NumberOfProcessors (nprocs e)], mpc := M_init_begin1\<rparr>)
      | M_init_begin1 \<Rightarrow>
          Some (SemInit beginSema1 (sem_init_ok e beginSema1),
                (sem_init e beginSema1 s)\<lparr>mpc := M_init_begin2\<rparr>)
      | M_init_begin2 \<Rightarrow>
          Some (SemInit beginSema2 (sem_init_ok e beginSema2),
                (sem_init e beginSema2 s)\<lparr>mpc := M_init_end1\<rparr>)
      | M_init_end1 \<Rightarrow>
          Some (SemInit endSema1 (sem_init_ok e endSema1),
                (sem_init e endSema1 s)\<lparr>mpc := M_init_end2\<rparr>)
      | M_init_end2 \<Rightarrow>
          Some (SemInit endSema2 (sem_init_ok e endSema2),
                (sem_init e endSema2 s)\<lparr>mpc := M_create1\<rparr>)
      | M_create1 \<Rightarrow>
          Some (Create Thread1 (create_ok e Thread1),
                (if create_ok e Thread1 then s\<lparr>pc1 := W_srand\<rparr> else s)\<lparr>mpc := M_create2\<rparr>)
      | M_create2 \<Rightarrow>
          Some (Create Thread2 (create_ok e Thread2),
                (if create_ok e Thread2 then s\<lparr>pc2 := W_srand\<rparr> else s)\<lparr>mpc := M_locals\<rparr>)
      | M_locals \<Rightarrow>
          Some (Locals, s\<lparr>detected := 0, iterations := 1, mpc := M_reset_X\<rparr>)
      | M_reset_X \<Rightarrow>
          Some (Store X 0, (store e Main_thread X 0 s)\<lparr>mpc := M_reset_Y\<rparr>)
      | M_reset_Y \<Rightarrow>
          Some (Store Y 0, (store e Main_thread Y 0 s)\<lparr>mpc := M_post_begin1\<rparr>)
      | M_post_begin1 \<Rightarrow>
          map_option (\<lambda>s'. (SemPost beginSema1, s'\<lparr>mpc := M_post_begin2\<rparr>))
            (sem_post Main_thread beginSema1 s)
      | M_post_begin2 \<Rightarrow>
          map_option (\<lambda>s'. (SemPost beginSema2, s'\<lparr>mpc := M_wait_end1\<rparr>))
            (sem_post Main_thread beginSema2 s)
      | M_wait_end1 \<Rightarrow>
          map_option (\<lambda>s'. (SemWait endSema1, s'\<lparr>mpc := M_wait_end2\<rparr>))
            (sem_wait Main_thread endSema1 s)
      | M_wait_end2 \<Rightarrow>
          map_option (\<lambda>s'. (SemWait endSema2, s'\<lparr>mpc := M_check\<rparr>))
            (sem_wait Main_thread endSema2 s)
      | M_check \<Rightarrow>
          Some (if load Main_thread r1 s = 0 \<and> load Main_thread r2 s = 0
                then (Check True,
                      s\<lparr>detected := detected s + 1,
                        out := out s @ [ReordersDetected (detected s + 1) (iterations s)],
                        mpc := M_incr\<rparr>)
                else (Check False, s\<lparr>mpc := M_incr\<rparr>))
      | M_incr \<Rightarrow>
          Some (Incr, s\<lparr>iterations := iterations s + 1, mpc := M_reset_X\<rparr>))"

text \<open>
  \<open>thread1Func\<close>. The result of \<open>pthread_setaffinity_np\<close> is not read either. The
  fence at line 87 is for the compiler only: it has no effect on the state.
\<close>

definition thread1_step :: "env \<Rightarrow> state \<Rightarrow> (event \<times> state) option" where
  "thread1_step e s =
     (case pc1 s of
        W_unborn \<Rightarrow> None
      | W_srand \<Rightarrow>
          Some (Srand (clock e Thread1), (srand e (clock e Thread1) s)\<lparr>pc1 := W_affinity\<rparr>)
      | W_affinity \<Rightarrow>
          Some (SetAffinity 10 (affinity_ok e Thread1),
                (if affinity_ok e Thread1 then s\<lparr>cpu := (cpu s)(Thread1 := Some 10)\<rparr> else s)
                  \<lparr>pc1 := W_wait\<rparr>)
      | W_wait \<Rightarrow>
          map_option (\<lambda>s'. (SemWait beginSema1, s'\<lparr>pc1 := W_delay\<rparr>))
            (sem_wait Thread1 beginSema1 s)
      | W_delay \<Rightarrow>
          (case rand s of
             (v, s') \<Rightarrow> Some (Rand v, if v mod 8 \<noteq> 0 then s' else s'\<lparr>pc1 := W_store\<rparr>))
      | W_store \<Rightarrow>
          Some (Store X 1, (store e Thread1 X 1 s)\<lparr>pc1 := W_fence\<rparr>)
      | W_fence \<Rightarrow>
          Some (Fence, s\<lparr>pc1 := W_load\<rparr>)
      | W_load \<Rightarrow>
          Some (Load r1 Y (load Thread1 Y s),
                (store e Thread1 r1 (load Thread1 Y s) s)\<lparr>pc1 := W_post\<rparr>)
      | W_post \<Rightarrow>
          map_option (\<lambda>s'. (SemPost endSema1, s'\<lparr>pc1 := W_wait\<rparr>))
            (sem_post Thread1 endSema1 s))"

text \<open>\<open>thread2Func\<close>: processor 1, \<open>beginSema2\<close>, \<open>Y = 1\<close>, \<open>r2 = X\<close>, \<open>endSema2\<close>.\<close>

definition thread2_step :: "env \<Rightarrow> state \<Rightarrow> (event \<times> state) option" where
  "thread2_step e s =
     (case pc2 s of
        W_unborn \<Rightarrow> None
      | W_srand \<Rightarrow>
          Some (Srand (clock e Thread2), (srand e (clock e Thread2) s)\<lparr>pc2 := W_affinity\<rparr>)
      | W_affinity \<Rightarrow>
          Some (SetAffinity 1 (affinity_ok e Thread2),
                (if affinity_ok e Thread2 then s\<lparr>cpu := (cpu s)(Thread2 := Some 1)\<rparr> else s)
                  \<lparr>pc2 := W_wait\<rparr>)
      | W_wait \<Rightarrow>
          map_option (\<lambda>s'. (SemWait beginSema2, s'\<lparr>pc2 := W_delay\<rparr>))
            (sem_wait Thread2 beginSema2 s)
      | W_delay \<Rightarrow>
          (case rand s of
             (v, s') \<Rightarrow> Some (Rand v, if v mod 8 \<noteq> 0 then s' else s'\<lparr>pc2 := W_store\<rparr>))
      | W_store \<Rightarrow>
          Some (Store Y 1, (store e Thread2 Y 1 s)\<lparr>pc2 := W_fence\<rparr>)
      | W_fence \<Rightarrow>
          Some (Fence, s\<lparr>pc2 := W_load\<rparr>)
      | W_load \<Rightarrow>
          Some (Load r2 X (load Thread2 X s),
                (store e Thread2 r2 (load Thread2 X s) s)\<lparr>pc2 := W_post\<rparr>)
      | W_post \<Rightarrow>
          map_option (\<lambda>s'. (SemPost endSema2, s'\<lparr>pc2 := W_wait\<rparr>))
            (sem_post Thread2 endSema2 s))"

text \<open>
  The delay loop of lines 83 and 109 on its own, \<open>while (rand() % 8 != 0) {}\<close>, as the
  function that runs it to its end. \<open>rand\<close> returns no negative value, and on those the
  remainder of C and \<open>mod\<close> agree (on any value they agree on being zero).
\<close>

partial_function (option) delay_loop :: "state \<Rightarrow> state option" where
  "delay_loop s = (case rand s of (v, s') \<Rightarrow> if v mod 8 \<noteq> 0 then delay_loop s' else Some s')"

subsection \<open>Runs\<close>

definition thread_step :: "env \<Rightarrow> thread_id \<Rightarrow> state \<Rightarrow> (event \<times> state) option" where
  "thread_step e t s =
     (case t of
        Main_thread \<Rightarrow> main_step e s
      | Thread1 \<Rightarrow> thread1_step e s
      | Thread2 \<Rightarrow> thread2_step e s)"

definition step :: "env \<Rightarrow> action \<Rightarrow> state \<Rightarrow> (event \<times> state) option" where
  "step e a s = (case a of Run t \<Rightarrow> thread_step e t s | Flush t \<Rightarrow> flush t s)"

type_synonym trace = "(action \<times> event) list"

text \<open>One scheduling decision; an action that is not enabled leaves everything as it is.\<close>

definition exec1 :: "env \<Rightarrow> trace \<times> state \<Rightarrow> action \<Rightarrow> trace \<times> state" where
  "exec1 e c a =
     (case step e a (snd c) of
        None \<Rightarrow> c
      | Some (ev, s') \<Rightarrow> (fst c @ [(a, ev)], s'))"

definition exec :: "env \<Rightarrow> action list \<Rightarrow> trace \<times> state \<Rightarrow> trace \<times> state" where
  "exec e sched c = foldl (exec1 e) c sched"

text \<open>
  Process start: globals are zero, no thread but \<open>main\<close> runs, \<open>rand\<close> is seeded with 1
  (as the C library does before any \<open>srand\<close>).
\<close>

definition init :: "env \<Rightarrow> state" where
  "init e =
     \<lparr>mem = (\<lambda>_. 0), buf = (\<lambda>_. []), sems = (\<lambda>_. 0), rng = gen e 1, cpu = (\<lambda>_. None),
      mpc = M_printf, pc1 = W_unborn, pc2 = W_unborn,
      detected = junk_detected e, iterations = junk_iterations e, out = []\<rparr>"

definition run :: "env \<Rightarrow> action list \<Rightarrow> trace \<times> state" where
  "run e sched = exec e sched ([], init e)"

subsection \<open>Traces\<close>

text \<open>How often an actor did an event of a given kind, and the events of one thread.\<close>

definition occ :: "action \<Rightarrow> (event \<Rightarrow> bool) \<Rightarrow> trace \<Rightarrow> nat" where
  "occ a P tr = length (filter (\<lambda>p. fst p = a \<and> P (snd p)) tr)"

definition events_of :: "thread_id \<Rightarrow> trace \<Rightarrow> event list" where
  "events_of t tr = map snd (filter (\<lambda>p. fst p = Run t) tr)"

definition is_check :: "event \<Rightarrow> bool" where
  "is_check ev = (case ev of Check _ \<Rightarrow> True | _ \<Rightarrow> False)"

text \<open>An assignment to the cell \<open>x\<close>: \<open>x = v\<close> or \<open>x = y\<close>.\<close>

definition writes :: "var \<Rightarrow> event \<Rightarrow> bool" where
  "writes x ev = (case ev of Store y _ \<Rightarrow> y = x | Load d _ _ \<Rightarrow> d = x | _ \<Rightarrow> False)"

text \<open>Trials completed (\<open>iterations++\<close> done), checks made, violations found.\<close>

definition completed :: "trace \<Rightarrow> nat" where
  "completed tr = occ (Run Main_thread) (\<lambda>ev. ev = Incr) tr"

definition checks :: "trace \<Rightarrow> nat" where
  "checks tr = occ (Run Main_thread) is_check tr"

definition detections :: "trace \<Rightarrow> nat" where
  "detections tr = occ (Run Main_thread) (\<lambda>ev. ev = Check True) tr"

text \<open>Report lines in the output.\<close>

definition is_report :: "out_line \<Rightarrow> bool" where
  "is_report l = (case l of ReordersDetected _ _ \<Rightarrow> True | _ \<Rightarrow> False)"

definition reports :: "out_line list \<Rightarrow> nat" where
  "reports ls = length (filter is_report ls)"

text \<open>Resets of a cell by \<open>main\<close>, signals \<open>main\<close> has received, signals a thread has sent.\<close>

definition resets :: "var \<Rightarrow> trace \<Rightarrow> nat" where
  "resets x tr = occ (Run Main_thread) (\<lambda>ev. ev = Store x 0) tr"

definition received :: "sem \<Rightarrow> trace \<Rightarrow> nat" where
  "received m tr = occ (Run Main_thread) (\<lambda>ev. ev = SemWait m) tr"

definition posted :: "thread_id \<Rightarrow> sem \<Rightarrow> trace \<Rightarrow> nat" where
  "posted t m tr = occ (Run t) (\<lambda>ev. ev = SemPost m) tr"

definition written :: "thread_id \<Rightarrow> var \<Rightarrow> trace \<Rightarrow> nat" where
  "written t x tr = occ (Run t) (writes x) tr"

subsection \<open>Program points and phases\<close>

fun startup :: "main_pc \<Rightarrow> bool" where
  "startup M_printf = True"
| "startup M_init_begin1 = True"
| "startup M_init_begin2 = True"
| "startup M_init_end1 = True"
| "startup M_init_end2 = True"
| "startup M_create1 = True"
| "startup M_create2 = True"
| "startup M_locals = True"
| "startup _ = False"

text \<open>
  Whether \<open>main\<close>, at a program point inside the loop, is past a statement of the
  current trial (1) or not yet (0).
\<close>

definition past_reset_X :: "main_pc \<Rightarrow> nat" where
  "past_reset_X pc = (if startup pc \<or> pc = M_reset_X then 0 else 1)"

definition past_reset_Y :: "main_pc \<Rightarrow> nat" where
  "past_reset_Y pc = (if startup pc \<or> pc = M_reset_X \<or> pc = M_reset_Y then 0 else 1)"

definition past_post_begin1 :: "main_pc \<Rightarrow> nat" where
  "past_post_begin1 pc =
     (if startup pc \<or> pc = M_reset_X \<or> pc = M_reset_Y \<or> pc = M_post_begin1 then 0 else 1)"

definition past_post_begin2 :: "main_pc \<Rightarrow> nat" where
  "past_post_begin2 pc =
     (if pc = M_wait_end1 \<or> pc = M_wait_end2 \<or> pc = M_check \<or> pc = M_incr then 1 else 0)"

definition past_wait_end1 :: "main_pc \<Rightarrow> nat" where
  "past_wait_end1 pc = (if pc = M_wait_end2 \<or> pc = M_check \<or> pc = M_incr then 1 else 0)"

definition past_wait_end2 :: "main_pc \<Rightarrow> nat" where
  "past_wait_end2 pc = (if pc = M_check \<or> pc = M_incr then 1 else 0)"

definition past_check :: "main_pc \<Rightarrow> nat" where
  "past_check pc = (if pc = M_incr then 1 else 0)"

text \<open>A worker outside its transaction: not created, starting up, or at \<open>sem_wait\<close>.\<close>

fun idle :: "worker_pc \<Rightarrow> bool" where
  "idle W_unborn = True"
| "idle W_srand = True"
| "idle W_affinity = True"
| "idle W_wait = True"
| "idle _ = False"

text \<open>The cells a thread assigns to.\<close>

fun may_write :: "thread_id \<Rightarrow> var \<Rightarrow> bool" where
  "may_write Main_thread x = (x = X \<or> x = Y)"
| "may_write Thread1 x = (x = X \<or> x = r1)"
| "may_write Thread2 x = (x = Y \<or> x = r2)"

subsection \<open>Invariants of every run\<close>

text \<open>The coordinator alone: its locals and its own events, by program point.\<close>

definition inv_main :: "trace \<times> state \<Rightarrow> bool" where
  "inv_main c = (case c of (tr, s) \<Rightarrow>
     (mpc s \<noteq> M_reset_Y \<and> mpc s \<noteq> M_post_begin1 \<longrightarrow> buf s Main_thread = []) \<and>
     (startup (mpc s) \<longrightarrow> completed tr = 0) \<and>
     (\<not> startup (mpc s) \<longrightarrow>
        detected s = of_nat (detections tr) \<and> iterations s = of_nat (Suc (completed tr))) \<and>
     detections tr \<le> checks tr \<and>
     reports (out s) = detections tr \<and>
     checks tr = completed tr + past_check (mpc s) \<and>
     resets X tr = completed tr + past_reset_X (mpc s) \<and>
     resets Y tr = completed tr + past_reset_Y (mpc s) \<and>
     posted Main_thread beginSema1 tr = completed tr + past_post_begin1 (mpc s) \<and>
     posted Main_thread beginSema2 tr = completed tr + past_post_begin2 (mpc s) \<and>
     received endSema1 tr = completed tr + past_wait_end1 (mpc s) \<and>
     received endSema2 tr = completed tr + past_wait_end2 (mpc s))"

text \<open>
  A worker against the coordinator. Between the coordinator's \<open>sem_post\<close> on the
  worker's begin semaphore and the return of its \<open>sem_wait\<close> on the worker's end
  semaphore (\<open>in_trial\<close>) the worker is somewhere in its one transaction of this trial;
  at any other time it is idle, both its semaphores are zero and its store buffer is
  empty. Here \<open>k\<close> is the number of completed trials, \<open>b\<close> and \<open>d\<close> the values of the
  begin and end semaphore, \<open>q\<close> the store buffer, and \<open>st\<close>, \<open>ld\<close>, \<open>po\<close> count the
  worker's stores to its cell, its loads into its result cell and its posts.
\<close>

definition worker_ok ::
  "bool \<Rightarrow> nat \<Rightarrow> worker_pc \<Rightarrow> nat \<Rightarrow> nat \<Rightarrow> nat \<Rightarrow> (var \<times> cint) list \<Rightarrow> nat \<Rightarrow> nat \<Rightarrow> nat \<Rightarrow> bool"
where
  "worker_ok in_trial past pc k b d q st ld po =
     (if in_trial
      then (case pc of
              W_wait \<Rightarrow> q = [] \<and> (b = 1 \<and> d = 0 \<and> st = k \<and> ld = k \<and> po = k
                                  \<or> b = 0 \<and> d = 1 \<and> st = Suc k \<and> ld = Suc k \<and> po = Suc k)
            | W_delay \<Rightarrow> q = [] \<and> b = 0 \<and> d = 0 \<and> st = k \<and> ld = k \<and> po = k
            | W_store \<Rightarrow> q = [] \<and> b = 0 \<and> d = 0 \<and> st = k \<and> ld = k \<and> po = k
            | W_fence \<Rightarrow> b = 0 \<and> d = 0 \<and> st = Suc k \<and> ld = k \<and> po = k
            | W_load \<Rightarrow> b = 0 \<and> d = 0 \<and> st = Suc k \<and> ld = k \<and> po = k
            | W_post \<Rightarrow> b = 0 \<and> d = 0 \<and> st = Suc k \<and> ld = Suc k \<and> po = k
            | _ \<Rightarrow> q = [] \<and> b = 1 \<and> d = 0 \<and> st = k \<and> ld = k \<and> po = k)
      else idle pc \<and> q = [] \<and> b = 0 \<and> d = 0
           \<and> st = k + past \<and> ld = k + past \<and> po = k + past)"

definition in_trial1 :: "main_pc \<Rightarrow> bool" where
  "in_trial1 pc = (pc = M_post_begin2 \<or> pc = M_wait_end1)"

definition in_trial2 :: "main_pc \<Rightarrow> bool" where
  "in_trial2 pc = (pc = M_wait_end1 \<or> pc = M_wait_end2)"

definition inv_w1 :: "trace \<times> state \<Rightarrow> bool" where
  "inv_w1 c = (case c of (tr, s) \<Rightarrow>
     worker_ok (in_trial1 (mpc s)) (past_wait_end1 (mpc s)) (pc1 s) (completed tr)
       (sems s beginSema1) (sems s endSema1) (buf s Thread1)
       (written Thread1 X tr) (written Thread1 r1 tr) (posted Thread1 endSema1 tr))"

definition inv_w2 :: "trace \<times> state \<Rightarrow> bool" where
  "inv_w2 c = (case c of (tr, s) \<Rightarrow>
     worker_ok (in_trial2 (mpc s)) (past_wait_end2 (mpc s)) (pc2 s) (completed tr)
       (sems s beginSema2) (sems s endSema2) (buf s Thread2)
       (written Thread2 Y tr) (written Thread2 r2 tr) (posted Thread2 endSema2 tr))"

text \<open>Every cell and every buffered store holds 0 or 1, and a buffer holds its owner's cells.\<close>

definition inv_val :: "state \<Rightarrow> bool" where
  "inv_val s =
     ((\<forall>x. mem s x = 0 \<or> mem s x = 1) \<and>
      (\<forall>t. \<forall>p \<in> set (buf s t). may_write t (fst p) \<and> (snd p = 0 \<or> snd p = 1)))"

text \<open>
  Under sequential consistency: no store is ever buffered and no violation is ever
  found; once a worker has stored in the current trial its cell holds 1; once both have
  loaded, one of them has read 1.
\<close>

definition inv_sc :: "env \<Rightarrow> trace \<times> state \<Rightarrow> bool" where
  "inv_sc e c = (case c of (tr, s) \<Rightarrow>
     mm e = SC \<longrightarrow>
       (\<forall>t. buf s t = []) \<and>
       detections tr = 0 \<and>
       (written Thread1 X tr = Suc (completed tr) \<longrightarrow> mem s X = 1) \<and>
       (written Thread2 Y tr = Suc (completed tr) \<longrightarrow> mem s Y = 1) \<and>
       (written Thread1 r1 tr = Suc (completed tr) \<and> written Thread2 r2 tr = Suc (completed tr)
          \<longrightarrow> mem s r1 = 1 \<or> mem s r2 = 1))"

text \<open>All of them together.\<close>

definition inv :: "env \<Rightarrow> trace \<times> state \<Rightarrow> bool" where
  "inv e c = (inv_main c \<and> inv_w1 c \<and> inv_w2 c \<and> inv_val (snd c) \<and> inv_sc e c)"

subsection \<open>The order of a thread's own events\<close>

definition is_rand :: "event \<Rightarrow> bool" where
  "is_rand ev = (case ev of Rand _ \<Rightarrow> True | _ \<Rightarrow> False)"

text \<open>
  The order of a worker's steps as the specification words it: at start-up seed the
  generator and bind to the processor \<open>c\<close>; then, each iteration, wait for the start
  signal \<open>b\<close>, sample until a sample is divisible by 8, store 1 into the own cell \<open>own\<close>,
  fence, load the other cell \<open>other\<close> into the result cell \<open>res\<close>, post the done signal
  \<open>d\<close>. \<open>worker_next \<dots> ev ev'\<close> says that \<open>ev'\<close> may directly follow \<open>ev\<close>.
\<close>

fun worker_next :: "nat \<Rightarrow> sem \<Rightarrow> var \<Rightarrow> var \<Rightarrow> var \<Rightarrow> sem \<Rightarrow> event \<Rightarrow> event \<Rightarrow> bool" where
  "worker_next c b own other res d (Srand _) ev' =
     (case ev' of SetAffinity c' _ \<Rightarrow> c' = c | _ \<Rightarrow> False)"
| "worker_next c b own other res d (SetAffinity _ _) ev' = (ev' = SemWait b)"
| "worker_next c b own other res d (SemWait _) ev' = is_rand ev'"
| "worker_next c b own other res d (Rand v) ev' =
     (if v mod 8 \<noteq> 0 then is_rand ev' else ev' = Store own 1)"
| "worker_next c b own other res d (Store _ _) ev' = (ev' = Fence)"
| "worker_next c b own other res d Fence ev' =
     (case ev' of Load dst src _ \<Rightarrow> dst = res \<and> src = other | _ \<Rightarrow> False)"
| "worker_next c b own other res d (Load _ _ _) ev' = (ev' = SemPost d)"
| "worker_next c b own other res d (SemPost _) ev' = (ev' = SemWait b)"
| "worker_next c b own other res d _ ev' = False"

text \<open>
  The order of the coordinator's steps: the start-up statements in source order, then,
  each iteration, reset \<open>X\<close>, reset \<open>Y\<close>, post both start signals, wait for both done
  signals, check, increment.
\<close>

fun main_next :: "event \<Rightarrow> event \<Rightarrow> bool" where
  "main_next (Printf _) ev' = (case ev' of SemInit m _ \<Rightarrow> m = beginSema1 | _ \<Rightarrow> False)"
| "main_next (SemInit m _) ev' =
     (case m of
        beginSema1 \<Rightarrow> (case ev' of SemInit m' _ \<Rightarrow> m' = beginSema2 | _ \<Rightarrow> False)
      | beginSema2 \<Rightarrow> (case ev' of SemInit m' _ \<Rightarrow> m' = endSema1 | _ \<Rightarrow> False)
      | endSema1 \<Rightarrow> (case ev' of SemInit m' _ \<Rightarrow> m' = endSema2 | _ \<Rightarrow> False)
      | endSema2 \<Rightarrow> (case ev' of Create t _ \<Rightarrow> t = Thread1 | _ \<Rightarrow> False))"
| "main_next (Create t _) ev' =
     (if t = Thread1 then (case ev' of Create t' _ \<Rightarrow> t' = Thread2 | _ \<Rightarrow> False)
      else ev' = Locals)"
| "main_next Locals ev' = (ev' = Store X 0)"
| "main_next (Store x _) ev' = (if x = X then ev' = Store Y 0 else ev' = SemPost beginSema1)"
| "main_next (SemPost m) ev' =
     (if m = beginSema1 then ev' = SemPost beginSema2 else ev' = SemWait endSema1)"
| "main_next (SemWait m) ev' = (if m = endSema1 then ev' = SemWait endSema2 else is_check ev')"
| "main_next (Check _) ev' = (ev' = Incr)"
| "main_next Incr ev' = (ev' = Store X 0)"
| "main_next _ ev' = False"

text \<open>The program point a thread is at after an event of its own.\<close>

fun after_worker :: "event \<Rightarrow> worker_pc option" where
  "after_worker (Srand _) = Some W_affinity"
| "after_worker (SetAffinity _ _) = Some W_wait"
| "after_worker (SemWait _) = Some W_delay"
| "after_worker (Rand v) = Some (if v mod 8 \<noteq> 0 then W_delay else W_store)"
| "after_worker (Store _ _) = Some W_fence"
| "after_worker Fence = Some W_load"
| "after_worker (Load _ _ _) = Some W_post"
| "after_worker (SemPost _) = Some W_wait"
| "after_worker _ = None"

fun after_main :: "event \<Rightarrow> main_pc option" where
  "after_main (Printf _) = Some M_init_begin1"
| "after_main (SemInit m _) =
     Some (case m of beginSema1 \<Rightarrow> M_init_begin2 | beginSema2 \<Rightarrow> M_init_end1
                   | endSema1 \<Rightarrow> M_init_end2 | endSema2 \<Rightarrow> M_create1)"
| "after_main (Create t _) = Some (if t = Thread1 then M_create2 else M_locals)"
| "after_main Locals = Some M_reset_X"
| "after_main (Store x _) = Some (if x = X then M_reset_Y else M_post_begin1)"
| "after_main (SemPost m) = Some (if m = beginSema1 then M_post_begin2 else M_wait_end1)"
| "after_main (SemWait m) = Some (if m = endSema1 then M_wait_end2 else M_check)"
| "after_main (Check _) = Some M_incr"
| "after_main Incr = Some M_reset_X"
| "after_main _ = None"

text \<open>Before \<open>pthread_create\<close> has been called for a worker.\<close>

fun before_create1 :: "main_pc \<Rightarrow> bool" where
  "before_create1 M_printf = True"
| "before_create1 M_init_begin1 = True"
| "before_create1 M_init_begin2 = True"
| "before_create1 M_init_end1 = True"
| "before_create1 M_init_end2 = True"
| "before_create1 M_create1 = True"
| "before_create1 _ = False"

fun before_create2 :: "main_pc \<Rightarrow> bool" where
  "before_create2 M_create2 = True"
| "before_create2 pc = before_create1 pc"

definition inv_order_main :: "trace \<times> state \<Rightarrow> bool" where
  "inv_order_main c = (case c of (tr, s) \<Rightarrow>
     successively main_next (events_of Main_thread tr) \<and>
     (if events_of Main_thread tr = [] then mpc s = M_printf
      else (\<exists>l. hd (events_of Main_thread tr) = Printf l) \<and>
           after_main (last (events_of Main_thread tr)) = Some (mpc s)))"

definition order_ok ::
  "(event \<Rightarrow> event \<Rightarrow> bool) \<Rightarrow> bool \<Rightarrow> worker_pc \<Rightarrow> event list \<Rightarrow> bool" where
  "order_ok next before pc evs =
     (successively next evs \<and> (before \<longrightarrow> pc = W_unborn) \<and>
      (if evs = [] then pc = W_unborn \<or> pc = W_srand
       else (\<exists>n. hd evs = Srand n) \<and> after_worker (last evs) = Some pc))"

definition inv_order1 :: "trace \<times> state \<Rightarrow> bool" where
  "inv_order1 c = (case c of (tr, s) \<Rightarrow>
     order_ok (worker_next 10 beginSema1 X Y r1 endSema1) (before_create1 (mpc s)) (pc1 s)
       (events_of Thread1 tr))"

definition inv_order2 :: "trace \<times> state \<Rightarrow> bool" where
  "inv_order2 c = (case c of (tr, s) \<Rightarrow>
     order_ok (worker_next 1 beginSema2 Y X r2 endSema2) (before_create2 (mpc s)) (pc2 s)
       (events_of Thread2 tr))"

definition inv_order :: "trace \<times> state \<Rightarrow> bool" where
  "inv_order c = (inv_order_main c \<and> inv_order1 c \<and> inv_order2 c)"

text \<open>The cell an event assigns to or commits, and who acts.\<close>

definition touched :: "event \<Rightarrow> var option" where
  "touched ev =
     (case ev of Store x _ \<Rightarrow> Some x | Load dst _ _ \<Rightarrow> Some dst | Commit x _ \<Rightarrow> Some x
               | _ \<Rightarrow> None)"

fun actor :: "action \<Rightarrow> thread_id" where
  "actor (Run t) = t"
| "actor (Flush t) = t"

text \<open>The value an event stores, loads or commits.\<close>

definition carried :: "event \<Rightarrow> cint option" where
  "carried ev =
     (case ev of Store _ v \<Rightarrow> Some v | Load _ _ v \<Rightarrow> Some v | Commit _ v \<Rightarrow> Some v
               | _ \<Rightarrow> None)"

text \<open>An event touches a cell of its actor only, and carries 0 or 1 if it carries a value.\<close>

definition event_ok :: "action \<times> event \<Rightarrow> bool" where
  "event_ok p =
     ((case touched (snd p) of None \<Rightarrow> True | Some x \<Rightarrow> may_write (actor (fst p)) x) \<and>
      (case carried (snd p) of None \<Rightarrow> True | Some v \<Rightarrow> v = 0 \<or> v = 1))"

definition inv_trace :: "trace \<times> state \<Rightarrow> bool" where
  "inv_trace c = (inv_val (snd c) \<and> list_all event_ok (fst c))"

subsection \<open>Concrete runs\<close>

text \<open>
  An environment in which every start-up call succeeds and \<open>rand\<close> gives 3, 3, 8, 8, \<dots>
  after each seeding, under either memory model, and one in which every \<open>sem_init\<close> and
  both affinity calls fail.
\<close>

definition env_of :: "memory_model \<Rightarrow> env" where
  "env_of m =
     \<lparr>mm = m, nprocs = 16, sem_init_ok = (\<lambda>_. True), create_ok = (\<lambda>_. True),
      affinity_ok = (\<lambda>_. True), clock = (\<lambda>_. 7), gen = (\<lambda>_ n. if n < 2 then 3 else 8),
      junk_detected = 5, junk_iterations = 9\<rparr>"

definition env_failing :: env where
  "env_failing = (env_of TSO)\<lparr>sem_init_ok := (\<lambda>_. False), affinity_ok := (\<lambda>_. False)\<rparr>"

text \<open>
  \<open>main\<close> runs up to its first \<open>sem_wait\<close>, worker 1 runs its whole first iteration,
  then worker 2 does, then \<open>main\<close> takes both done signals: the interleaving 1, 2, 3, 4
  of the source's comment.
\<close>

definition sched_sequential :: "action list" where
  "sched_sequential =
     replicate 12 (Run Main_thread) @ replicate 10 (Run Thread1) @ replicate 10 (Run Thread2)
     @ replicate 2 (Run Main_thread)"

text \<open>
  Under TSO: \<open>main\<close> resets, lets its two stores reach memory and posts; each worker
  runs up to and including its load while its store to its own cell is still in its
  buffer; then the buffers drain, the workers post and \<open>main\<close> takes both signals.
\<close>

definition sched_reordered :: "action list" where
  "sched_reordered =
     replicate 10 (Run Main_thread) @ replicate 2 (Flush Main_thread)
     @ replicate 2 (Run Main_thread)
     @ replicate 9 (Run Thread1) @ replicate 9 (Run Thread2)
     @ replicate 2 (Flush Thread1) @ replicate 2 (Flush Thread2)
     @ [Run Thread1, Run Thread2] @ replicate 2 (Run Main_thread)"

section \<open>Basic facts\<close>

lemma occ_Nil [simp]: "occ a P [] = 0"
  by (simp add: occ_def)

lemma occ_snoc [simp]:
  "occ a P (tr @ [(b, ev)]) = occ a P tr + (if b = a \<and> P ev then 1 else 0)"
  by (simp add: occ_def)

lemmas counters =
  completed_def checks_def detections_def resets_def received_def posted_def written_def
  is_check_def writes_def reports_def is_report_def

lemmas phases =
  past_reset_X_def past_reset_Y_def past_post_begin1_def past_post_begin2_def
  past_wait_end1_def past_wait_end2_def past_check_def in_trial1_def in_trial2_def

lemma store_fields [simp]:
  "mpc (store e t x v s) = mpc s"
  "pc1 (store e t x v s) = pc1 s"
  "pc2 (store e t x v s) = pc2 s"
  "sems (store e t x v s) = sems s"
  "rng (store e t x v s) = rng s"
  "cpu (store e t x v s) = cpu s"
  "detected (store e t x v s) = detected s"
  "iterations (store e t x v s) = iterations s"
  "out (store e t x v s) = out s"
  "mem (store e t x v s) = (if mm e = SC then (mem s)(x := v) else mem s)"
  "buf (store e t x v s) = (if mm e = SC then buf s else (buf s)(t := buf s t @ [(x, v)]))"
  by (cases "mm e"; simp add: store_def)+

lemma sem_init_fields [simp]:
  "mpc (sem_init e m s) = mpc s"
  "pc1 (sem_init e m s) = pc1 s"
  "pc2 (sem_init e m s) = pc2 s"
  "mem (sem_init e m s) = mem s"
  "buf (sem_init e m s) = buf s"
  "rng (sem_init e m s) = rng s"
  "cpu (sem_init e m s) = cpu s"
  "detected (sem_init e m s) = detected s"
  "iterations (sem_init e m s) = iterations s"
  "out (sem_init e m s) = out s"
  "sems (sem_init e m s) = (if sem_init_ok e m then (sems s)(m := 0) else sems s)"
  by (simp_all add: sem_init_def)

lemma sem_wait_Some:
  "sem_wait t m s = Some s' \<longleftrightarrow>
     buf s t = [] \<and> 0 < sems s m \<and> s' = s\<lparr>sems := (sems s)(m := sems s m - 1)\<rparr>"
  by (auto simp: sem_wait_def)

lemma sem_post_Some:
  "sem_post t m s = Some s' \<longleftrightarrow>
     buf s t = [] \<and> s' = s\<lparr>sems := (sems s)(m := Suc (sems s m))\<rparr>"
  by (auto simp: sem_post_def)

lemma flush_Some:
  "flush t s = Some (ev, s') \<longleftrightarrow>
     (\<exists>p rest. buf s t = p # rest \<and> ev = Commit (fst p) (snd p) \<and>
        s' = s\<lparr>mem := (mem s)(fst p := snd p), buf := (buf s)(t := rest)\<rparr>)"
  by (auto simp: flush_def split: list.splits)


text \<open>What a step of one thread leaves alone.\<close>

lemma main_step_frame:
  assumes "main_step e s = Some (ev, s')"
  shows "(pc1 s' = pc1 s \<or> pc1 s = W_unborn \<and> pc1 s' = W_srand \<or> mpc s = M_create1) \<and>
         (pc2 s' = pc2 s \<or> pc2 s = W_unborn \<and> pc2 s' = W_srand \<or> mpc s = M_create2) \<and>
         (\<forall>t. t \<noteq> Main_thread \<longrightarrow> buf s' t = buf s t) \<and>
         rng s' = rng s \<and> cpu s' = cpu s"
  using assms
  by (cases "mpc s";
      clarsimp simp: main_step_def sem_post_Some sem_wait_Some split: if_splits)

lemma thread1_step_frame:
  assumes "thread1_step e s = Some (ev, s')"
  shows "mpc s' = mpc s \<and> pc2 s' = pc2 s \<and>
         detected s' = detected s \<and> iterations s' = iterations s \<and> out s' = out s \<and>
         sems s' beginSema2 = sems s beginSema2 \<and> sems s' endSema2 = sems s endSema2 \<and>
         (\<forall>t. t \<noteq> Thread1 \<longrightarrow> buf s' t = buf s t)"
  using assms
  by (cases "pc1 s";
      clarsimp simp: thread1_step_def sem_post_Some sem_wait_Some rand_def srand_def
               split: if_splits)

lemma thread2_step_frame:
  assumes "thread2_step e s = Some (ev, s')"
  shows "mpc s' = mpc s \<and> pc1 s' = pc1 s \<and>
         detected s' = detected s \<and> iterations s' = iterations s \<and> out s' = out s \<and>
         sems s' beginSema1 = sems s beginSema1 \<and> sems s' endSema1 = sems s endSema1 \<and>
         (\<forall>t. t \<noteq> Thread2 \<longrightarrow> buf s' t = buf s t)"
  using assms
  by (cases "pc2 s";
      clarsimp simp: thread2_step_def sem_post_Some sem_wait_Some rand_def srand_def
               split: if_splits)

lemma flush_frame:
  assumes "flush t s = Some (ev, s')"
  shows "mpc s' = mpc s \<and> pc1 s' = pc1 s \<and> pc2 s' = pc2 s \<and>
         sems s' = sems s \<and> rng s' = rng s \<and> cpu s' = cpu s \<and>
         detected s' = detected s \<and> iterations s' = iterations s \<and> out s' = out s \<and>
         (\<forall>u. u \<noteq> t \<longrightarrow> buf s' u = buf s u)"
  using assms by (auto simp: flush_Some)

section \<open>The coordinator's invariant\<close>

lemma inv_main_init: "inv_main ([], init e)"
  by (simp add: inv_main_def init_def counters phases)

lemma inv_main_main:
  assumes "inv_main (tr, s)" "main_step e s = Some (ev, s')"
  shows "inv_main (tr @ [(Run Main_thread, ev)], s')"
proof (cases "mpc s")
  case M_check
  show ?thesis
  proof (cases "load Main_thread r1 s = 0 \<and> load Main_thread r2 s = 0")
    case True
    with M_check assms show ?thesis
      by (clarsimp simp: inv_main_def main_step_def counters phases)
  next
    case False
    with M_check assms show ?thesis
      by (clarsimp simp: inv_main_def main_step_def counters phases)
  qed
qed (use assms in \<open>clarsimp simp: inv_main_def main_step_def counters phases
                     sem_post_Some sem_wait_Some\<close>)+

lemma inv_main_other:
  assumes "inv_main (tr, s)" "a \<noteq> Run Main_thread"
    and "mpc s' = mpc s" "detected s' = detected s" "iterations s' = iterations s"
    and "out s' = out s"
    and "buf s Main_thread = [] \<longrightarrow> buf s' Main_thread = []"
  shows "inv_main (tr @ [(a, ev)], s')"
  using assms by (simp add: inv_main_def counters)

section \<open>The workers' invariants\<close>

lemma worker_ok_False:
  "worker_ok False past pc k b d q st ld po \<longleftrightarrow>
     idle pc \<and> q = [] \<and> b = 0 \<and> d = 0 \<and> st = k + past \<and> ld = k + past \<and> po = k + past"
  by (simp add: worker_ok_def)

lemma worker_ok_True:
  "worker_ok True past pc k b d q st ld po \<longleftrightarrow>
     (case pc of
        W_wait \<Rightarrow> q = [] \<and> (b = 1 \<and> d = 0 \<and> st = k \<and> ld = k \<and> po = k
                            \<or> b = 0 \<and> d = 1 \<and> st = Suc k \<and> ld = Suc k \<and> po = Suc k)
      | W_delay \<Rightarrow> q = [] \<and> b = 0 \<and> d = 0 \<and> st = k \<and> ld = k \<and> po = k
      | W_store \<Rightarrow> q = [] \<and> b = 0 \<and> d = 0 \<and> st = k \<and> ld = k \<and> po = k
      | W_fence \<Rightarrow> b = 0 \<and> d = 0 \<and> st = Suc k \<and> ld = k \<and> po = k
      | W_load \<Rightarrow> b = 0 \<and> d = 0 \<and> st = Suc k \<and> ld = k \<and> po = k
      | W_post \<Rightarrow> b = 0 \<and> d = 0 \<and> st = Suc k \<and> ld = Suc k \<and> po = k
      | _ \<Rightarrow> q = [] \<and> b = 1 \<and> d = 0 \<and> st = k \<and> ld = k \<and> po = k)"
  by (simp add: worker_ok_def)

lemma inv_w1_init: "inv_w1 ([], init e)"
  by (simp add: inv_w1_def worker_ok_False init_def counters phases)

lemma inv_w2_init: "inv_w2 ([], init e)"
  by (simp add: inv_w2_def worker_ok_False init_def counters phases)

text \<open>A buffered store of a worker leaves its buffer only inside the transaction.\<close>

lemma worker_ok_flush:
  "worker_ok i past pc k b d (p # q) st ld po \<Longrightarrow> worker_ok i past pc k b d q st ld po"
  by (cases pc; cases i; simp add: worker_ok_def)

lemma inv_w1_other:
  assumes "inv_w1 (tr, s)" "a \<noteq> Run Main_thread" "a \<noteq> Run Thread1"
    and "mpc s' = mpc s" "pc1 s' = pc1 s"
    and "sems s' beginSema1 = sems s beginSema1" "sems s' endSema1 = sems s endSema1"
    and "buf s' Thread1 = buf s Thread1 \<or> (\<exists>p. buf s Thread1 = p # buf s' Thread1)"
  shows "inv_w1 (tr @ [(a, ev)], s')"
  using assms by (auto simp: inv_w1_def counters intro: worker_ok_flush)

lemma inv_w2_other:
  assumes "inv_w2 (tr, s)" "a \<noteq> Run Main_thread" "a \<noteq> Run Thread2"
    and "mpc s' = mpc s" "pc2 s' = pc2 s"
    and "sems s' beginSema2 = sems s beginSema2" "sems s' endSema2 = sems s endSema2"
    and "buf s' Thread2 = buf s Thread2 \<or> (\<exists>p. buf s Thread2 = p # buf s' Thread2)"
  shows "inv_w2 (tr @ [(a, ev)], s')"
  using assms by (auto simp: inv_w2_def counters intro: worker_ok_flush)

lemma inv_w1_main:
  assumes "inv_w1 (tr, s)" "main_step e s = Some (ev, s')"
  shows "inv_w1 (tr @ [(Run Main_thread, ev)], s')"
proof (cases "mpc s")
  case M_post_begin1
  with assms show ?thesis
    by (cases "pc1 s";
        clarsimp simp: inv_w1_def worker_ok_False worker_ok_True main_step_def counters phases
                       sem_post_Some)
next
  case M_wait_end1
  with assms show ?thesis
    by (cases "pc1 s";
        clarsimp simp: inv_w1_def worker_ok_False worker_ok_True main_step_def counters phases
                       sem_wait_Some)
qed (use assms in \<open>clarsimp simp: inv_w1_def worker_ok_False main_step_def counters phases
                     sem_post_Some sem_wait_Some split: if_splits\<close>)+

lemma inv_w2_main:
  assumes "inv_w2 (tr, s)" "main_step e s = Some (ev, s')"
  shows "inv_w2 (tr @ [(Run Main_thread, ev)], s')"
proof (cases "mpc s")
  case M_post_begin2
  with assms show ?thesis
    by (cases "pc2 s";
        clarsimp simp: inv_w2_def worker_ok_False worker_ok_True main_step_def counters phases
                       sem_post_Some)
next
  case M_wait_end2
  with assms show ?thesis
    by (cases "pc2 s";
        clarsimp simp: inv_w2_def worker_ok_False worker_ok_True main_step_def counters phases
                       sem_wait_Some)
qed (use assms in \<open>clarsimp simp: inv_w2_def worker_ok_False main_step_def counters phases
                     sem_post_Some sem_wait_Some split: if_splits\<close>)+

lemma inv_w1_thread1:
  assumes "inv_w1 (tr, s)" "thread1_step e s = Some (ev, s')"
  shows "inv_w1 (tr @ [(Run Thread1, ev)], s')"
  using assms
  by (cases "pc1 s"; cases "in_trial1 (mpc s)";
      clarsimp simp: inv_w1_def worker_ok_False worker_ok_True thread1_step_def counters
                     rand_def srand_def sem_post_Some sem_wait_Some split: if_splits)

lemma inv_w2_thread2:
  assumes "inv_w2 (tr, s)" "thread2_step e s = Some (ev, s')"
  shows "inv_w2 (tr @ [(Run Thread2, ev)], s')"
  using assms
  by (cases "pc2 s"; cases "in_trial2 (mpc s)";
      clarsimp simp: inv_w2_def worker_ok_False worker_ok_True thread2_step_def counters
                     rand_def srand_def sem_post_Some sem_wait_Some split: if_splits)

section \<open>Values\<close>

lemma load_cases:
  "load t x s = mem s x \<or> (\<exists>p \<in> set (buf s t). fst p = x \<and> load t x s = snd p)"
proof (cases "filter (\<lambda>p. fst p = x) (rev (buf s t))")
  case Nil
  then show ?thesis by (simp add: load_def)
next
  case (Cons p ps)
  then have "p \<in> set (filter (\<lambda>p. fst p = x) (rev (buf s t)))" by simp
  then have "p \<in> set (buf s t)" "fst p = x" by auto
  with Cons show ?thesis by (auto simp: load_def)
qed

lemma load_empty [simp]: "buf s t = [] \<Longrightarrow> load t x s = mem s x"
  by (simp add: load_def)

lemma load_val:
  assumes "inv_val s"
  shows "load t x s = 0 \<or> load t x s = 1"
proof -
  from load_cases [of t x s] show ?thesis
  proof
    assume "load t x s = mem s x"
    with assms show ?thesis by (simp add: inv_val_def)
  next
    assume "\<exists>p \<in> set (buf s t). fst p = x \<and> load t x s = snd p"
    then obtain p where "p \<in> set (buf s t)" "load t x s = snd p" by blast
    with assms show ?thesis unfolding inv_val_def by metis
  qed
qed

lemma inv_val_init: "inv_val (init e)"
  by (simp add: inv_val_def init_def)

lemma inv_val_store:
  "inv_val s \<Longrightarrow> may_write t x \<Longrightarrow> v = 0 \<or> v = 1 \<Longrightarrow> inv_val (store e t x v s)"
  by (cases "mm e") (auto simp: inv_val_def store_def)

lemma inv_val_fields [simp]:
  "inv_val (s\<lparr>sems := a\<rparr>) = inv_val s"
  "inv_val (s\<lparr>rng := b\<rparr>) = inv_val s"
  "inv_val (s\<lparr>cpu := c\<rparr>) = inv_val s"
  "inv_val (s\<lparr>mpc := d\<rparr>) = inv_val s"
  "inv_val (s\<lparr>pc1 := f\<rparr>) = inv_val s"
  "inv_val (s\<lparr>pc2 := g\<rparr>) = inv_val s"
  "inv_val (s\<lparr>detected := h\<rparr>) = inv_val s"
  "inv_val (s\<lparr>iterations := i\<rparr>) = inv_val s"
  "inv_val (s\<lparr>out := j\<rparr>) = inv_val s"
  "inv_val (sem_init e m s) = inv_val s"
  by (simp_all add: inv_val_def)

lemma inv_val_main:
  assumes "inv_val s" "main_step e s = Some (ev, s')"
  shows "inv_val s'"
  using assms
  by (cases "mpc s";
      clarsimp simp: main_step_def sem_post_Some sem_wait_Some inv_val_store split: if_splits)

lemma inv_val_thread1:
  assumes "inv_val s" "thread1_step e s = Some (ev, s')"
  shows "inv_val s'"
  using assms load_val [OF assms(1), of Thread1 Y]
  by (cases "pc1 s";
      clarsimp simp: thread1_step_def sem_post_Some sem_wait_Some rand_def srand_def
                     inv_val_store split: if_splits)

lemma inv_val_thread2:
  assumes "inv_val s" "thread2_step e s = Some (ev, s')"
  shows "inv_val s'"
  using assms load_val [OF assms(1), of Thread2 X]
  by (cases "pc2 s";
      clarsimp simp: thread2_step_def sem_post_Some sem_wait_Some rand_def srand_def
                     inv_val_store split: if_splits)

lemma inv_val_flush:
  assumes "inv_val s" "flush t s = Some (ev, s')"
  shows "inv_val s'"
proof -
  from assms(2) obtain p rest where b: "buf s t = p # rest"
    and s': "s' = s\<lparr>mem := (mem s)(fst p := snd p), buf := (buf s)(t := rest)\<rparr>"
    by (auto simp: flush_Some)
  have p: "snd p = 0 \<or> snd p = 1"
    using assms(1) b unfolding inv_val_def by (metis list.set_intros(1))
  have rest: "\<forall>q \<in> set rest. may_write t (fst q) \<and> (snd q = 0 \<or> snd q = 1)"
    using assms(1) b unfolding inv_val_def by (metis list.set_intros(2))
  show ?thesis
    unfolding s' inv_val_def using assms(1) p rest
    by (simp add: inv_val_def)
qed

lemma inv_val_step:
  assumes "inv_val s" "step e a s = Some (ev, s')"
  shows "inv_val s'"
proof (cases a)
  case (Run t)
  show ?thesis
  proof (cases t)
    case Main_thread
    with Run assms(2) have "main_step e s = Some (ev, s')"
      by (simp add: step_def thread_step_def)
    with assms(1) show ?thesis by (rule inv_val_main)
  next
    case Thread1
    with Run assms(2) have "thread1_step e s = Some (ev, s')"
      by (simp add: step_def thread_step_def)
    with assms(1) show ?thesis by (rule inv_val_thread1)
  next
    case Thread2
    with Run assms(2) have "thread2_step e s = Some (ev, s')"
      by (simp add: step_def thread_step_def)
    with assms(1) show ?thesis by (rule inv_val_thread2)
  qed
next
  case (Flush t)
  with assms(2) have "flush t s = Some (ev, s')" by (simp add: step_def)
  with assms(1) show ?thesis by (rule inv_val_flush)
qed

section \<open>Sequential consistency\<close>

lemma worker_ok_counts:
  assumes "worker_ok i past pc k b d q st ld po"
  shows "(ld = Suc k \<longrightarrow> st = Suc k) \<and> po \<le> ld \<and> ld \<le> st \<and> k \<le> po"
  using assms by (cases pc; cases i; auto simp: worker_ok_def)

lemma inv_sc_init: "inv_sc e ([], init e)"
  by (simp add: inv_sc_def init_def counters)

lemma inv_sc_main:
  assumes "inv_sc e (tr, s)" "inv_w1 (tr, s)" "inv_w2 (tr, s)"
    and "main_step e s = Some (ev, s')"
  shows "inv_sc e (tr @ [(Run Main_thread, ev)], s')"
proof (cases "mm e")
  case TSO
  then show ?thesis by (simp add: inv_sc_def)
next
  case SC
  with assms(1) have bufs: "buf s Main_thread = []" by (simp add: inv_sc_def)
  show ?thesis
    using assms SC bufs
    by (cases "mpc s";
        clarsimp simp: inv_sc_def inv_w1_def inv_w2_def worker_ok_False main_step_def
                       counters phases sem_post_Some sem_wait_Some
                 split: if_splits)
qed

lemma inv_sc_thread1:
  assumes "inv_sc e (tr, s)" "inv_w2 (tr, s)"
    and "thread1_step e s = Some (ev, s')"
  shows "inv_sc e (tr @ [(Run Thread1, ev)], s')"
proof (cases "mm e")
  case TSO
  then show ?thesis by (simp add: inv_sc_def)
next
  case SC
  with assms(1) have bufs: "buf s Thread1 = []" by (simp add: inv_sc_def)
  from assms(2) have w2:
    "written Thread2 r2 tr = Suc (completed tr) \<longrightarrow> written Thread2 Y tr = Suc (completed tr)"
    unfolding inv_w2_def by (auto dest: worker_ok_counts)
  show ?thesis
    using assms(1,3) SC bufs w2
    by (cases "pc1 s";
        clarsimp simp: inv_sc_def thread1_step_def counters rand_def srand_def
                       sem_post_Some sem_wait_Some
                 split: if_splits)
qed

lemma inv_sc_thread2:
  assumes "inv_sc e (tr, s)" "inv_w1 (tr, s)"
    and "thread2_step e s = Some (ev, s')"
  shows "inv_sc e (tr @ [(Run Thread2, ev)], s')"
proof (cases "mm e")
  case TSO
  then show ?thesis by (simp add: inv_sc_def)
next
  case SC
  with assms(1) have bufs: "buf s Thread2 = []" by (simp add: inv_sc_def)
  from assms(2) have w1:
    "written Thread1 r1 tr = Suc (completed tr) \<longrightarrow> written Thread1 X tr = Suc (completed tr)"
    unfolding inv_w1_def by (auto dest: worker_ok_counts)
  show ?thesis
    using assms(1,3) SC bufs w1
    by (cases "pc2 s";
        clarsimp simp: inv_sc_def thread2_step_def counters rand_def srand_def
                       sem_post_Some sem_wait_Some
                 split: if_splits)
qed

lemma inv_sc_flush:
  assumes "inv_sc e (tr, s)" "flush t s = Some (ev, s')"
  shows "inv_sc e (tr @ [(Flush t, ev)], s')"
  using assms by (cases "mm e") (auto simp: inv_sc_def flush_Some)

section \<open>Every run keeps the invariants\<close>

lemma inv_init: "inv e ([], init e)"
  by (simp add: inv_def inv_main_init inv_w1_init inv_w2_init inv_val_init inv_sc_init)

lemma inv_step:
  assumes "inv e (tr, s)" "step e a s = Some (ev, s')"
  shows "inv e (tr @ [(a, ev)], s')"
proof -
  from assms(1) have m: "inv_main (tr, s)" and w1: "inv_w1 (tr, s)" and w2: "inv_w2 (tr, s)"
    and v: "inv_val s" and sc: "inv_sc e (tr, s)"
    by (simp_all add: inv_def)
  from v assms(2) have v': "inv_val s'" by (rule inv_val_step)
  show ?thesis
  proof (cases a)
    case (Run t)
    show ?thesis
    proof (cases t)
      case Main_thread
      with Run assms(2) have st: "main_step e s = Some (ev, s')"
        by (simp add: step_def thread_step_def)
      show ?thesis
        unfolding inv_def Run Main_thread
        using v' inv_main_main [OF m st] inv_w1_main [OF w1 st] inv_w2_main [OF w2 st]
          inv_sc_main [OF sc w1 w2 st]
        by simp
    next
      case Thread1
      with Run assms(2) have st: "thread1_step e s = Some (ev, s')"
        by (simp add: step_def thread_step_def)
      note fr = thread1_step_frame [OF st]
      have "inv_main (tr @ [(Run Thread1, ev)], s')"
        by (rule inv_main_other [OF m]) (use fr in simp_all)
      moreover have "inv_w2 (tr @ [(Run Thread1, ev)], s')"
        by (rule inv_w2_other [OF w2]) (use fr in simp_all)
      ultimately show ?thesis
        unfolding inv_def Run Thread1
        using v' inv_w1_thread1 [OF w1 st] inv_sc_thread1 [OF sc w2 st]
        by simp
    next
      case Thread2
      with Run assms(2) have st: "thread2_step e s = Some (ev, s')"
        by (simp add: step_def thread_step_def)
      note fr = thread2_step_frame [OF st]
      have "inv_main (tr @ [(Run Thread2, ev)], s')"
        by (rule inv_main_other [OF m]) (use fr in simp_all)
      moreover have "inv_w1 (tr @ [(Run Thread2, ev)], s')"
        by (rule inv_w1_other [OF w1]) (use fr in simp_all)
      ultimately show ?thesis
        unfolding inv_def Run Thread2
        using v' inv_w2_thread2 [OF w2 st] inv_sc_thread2 [OF sc w1 st]
        by simp
    qed
  next
    case (Flush t)
    with assms(2) have st: "flush t s = Some (ev, s')" by (simp add: step_def)
    note fr = flush_frame [OF st]
    from st obtain p rest where b: "buf s t = p # rest"
      and s': "s' = s\<lparr>mem := (mem s)(fst p := snd p), buf := (buf s)(t := rest)\<rparr>"
      unfolding flush_Some by blast
    have bm: "buf s Main_thread = [] \<longrightarrow> buf s' Main_thread = []"
      unfolding s' using b by (cases "t = Main_thread") simp_all
    have b1: "buf s' Thread1 = buf s Thread1 \<or> (\<exists>p. buf s Thread1 = p # buf s' Thread1)"
      unfolding s' using b by (cases "t = Thread1") simp_all
    have b2: "buf s' Thread2 = buf s Thread2 \<or> (\<exists>p. buf s Thread2 = p # buf s' Thread2)"
      unfolding s' using b by (cases "t = Thread2") simp_all
    have "inv_main (tr @ [(Flush t, ev)], s')"
      by (rule inv_main_other [OF m]) (use fr bm in simp_all)
    moreover have "inv_w1 (tr @ [(Flush t, ev)], s')"
      by (rule inv_w1_other [OF w1]) (use fr b1 in simp_all)
    moreover have "inv_w2 (tr @ [(Flush t, ev)], s')"
      by (rule inv_w2_other [OF w2]) (use fr b2 in simp_all)
    ultimately show ?thesis
      unfolding inv_def Flush using v' inv_sc_flush [OF sc st] by simp
  qed
qed

lemma inv_exec1: "inv e c \<Longrightarrow> inv e (exec1 e c a)"
  by (cases c; cases "step e a (snd c)") (auto simp: exec1_def intro: inv_step)

lemma inv_exec: "inv e c \<Longrightarrow> inv e (exec e sched c)"
  unfolding exec_def by (induction sched arbitrary: c) (simp_all add: inv_exec1)

lemma inv_run: "inv e (run e sched)"
  unfolding run_def by (rule inv_exec [OF inv_init])

section \<open>Program order\<close>

lemma events_of_Nil [simp]: "events_of t [] = []"
  by (simp add: events_of_def)

lemma events_of_snoc [simp]:
  "events_of t (tr @ [(a, ev)]) = (if a = Run t then events_of t tr @ [ev] else events_of t tr)"
  by (simp add: events_of_def)

lemma successively_snoc:
  "successively P (xs @ [y]) \<longleftrightarrow> successively P xs \<and> (xs = [] \<or> P (last xs) y)"
  by (cases xs rule: rev_cases) (auto simp: successively_append_iff)

lemma after_worker_born: "after_worker ev = Some pc \<Longrightarrow> pc \<noteq> W_unborn \<and> pc \<noteq> W_srand"
  by (cases ev) (auto split: if_splits)

lemma inv_order_init: "inv_order ([], init e)"
  by (simp add: inv_order_def inv_order_main_def inv_order1_def inv_order2_def order_ok_def
                init_def)

lemma inv_order_main_main:
  assumes "inv_order_main (tr, s)" "main_step e s = Some (ev, s')"
  shows "inv_order_main (tr @ [(Run Main_thread, ev)], s')"
proof (cases "events_of Main_thread tr = []")
  case True
  with assms show ?thesis
    by (auto simp: inv_order_main_def main_step_def)
next
  case False
  with assms(1) have pc: "after_main (last (events_of Main_thread tr)) = Some (mpc s)"
    and hd: "\<exists>l. hd (events_of Main_thread tr) = Printf l"
    and succ: "successively main_next (events_of Main_thread tr)"
    by (simp_all add: inv_order_main_def)
  have "main_next (last (events_of Main_thread tr)) ev \<and> after_main ev = Some (mpc s')"
    using pc assms(2)
    by (cases "last (events_of Main_thread tr)")
       (auto simp: main_step_def sem_post_Some sem_wait_Some is_check_def
             split: sem.splits if_splits)
  with succ hd False show ?thesis
    by (simp add: inv_order_main_def successively_snoc)
qed

lemma inv_order_main_other:
  assumes "inv_order_main (tr, s)" "a \<noteq> Run Main_thread" "mpc s' = mpc s"
  shows "inv_order_main (tr @ [(a, ev)], s')"
  using assms by (simp add: inv_order_main_def)

text \<open>A worker's own step extends its order.\<close>

lemma order_ok_step:
  assumes "order_ok nxt False pc evs"
    and "evs = [] \<Longrightarrow> pc = W_srand \<and> (\<exists>n. ev = Srand n) \<and> pc' = W_affinity"
    and "\<And>l. after_worker l = Some pc \<Longrightarrow> nxt l ev \<and> after_worker ev = Some pc'"
  shows "order_ok nxt False pc' (evs @ [ev])"
proof (cases "evs = []")
  case True
  with assms(2) show ?thesis by (auto simp: order_ok_def)
next
  case False
  with assms(1) have l: "after_worker (last evs) = Some pc" and hd: "\<exists>n. hd evs = Srand n"
    and succ: "successively nxt evs"
    by (simp_all add: order_ok_def)
  from assms(3) [OF l] succ hd False show ?thesis
    by (simp add: order_ok_def successively_snoc)
qed

lemma order_ok_same:
  assumes "order_ok nxt before pc evs" "before' \<longrightarrow> before"
  shows "order_ok nxt before' pc evs"
  using assms by (auto simp: order_ok_def)

lemma order_ok_create:
  assumes "order_ok nxt True pc evs"
  shows "order_ok nxt False W_srand evs" "order_ok nxt False pc evs"
proof -
  from assms have pc: "pc = W_unborn" by (simp add: order_ok_def)
  have "evs = []"
  proof (rule ccontr)
    assume "evs \<noteq> []"
    with assms have "after_worker (last evs) = Some W_unborn" by (simp add: order_ok_def pc)
    then show False by (auto dest: after_worker_born)
  qed
  with pc show "order_ok nxt False W_srand evs" "order_ok nxt False pc evs"
    by (simp_all add: order_ok_def)
qed

lemma order_ok_not_before:
  assumes "order_ok nxt before pc evs" "pc \<noteq> W_unborn"
  shows "\<not> before"
  using assms by (auto simp: order_ok_def)

lemma inv_order1_thread1:
  assumes "inv_order1 (tr, s)" "thread1_step e s = Some (ev, s')"
  shows "inv_order1 (tr @ [(Run Thread1, ev)], s')"
proof -
  from assms(2) have born: "pc1 s \<noteq> W_unborn" by (auto simp: thread1_step_def)
  from assms(2) have mpc: "mpc s' = mpc s" by (simp add: thread1_step_frame)
  from assms(1) born have nb: "\<not> before_create1 (mpc s)"
    unfolding inv_order1_def by (auto dest: order_ok_not_before)
  have "order_ok (worker_next 10 beginSema1 X Y r1 endSema1) False (pc1 s')
          (events_of Thread1 tr @ [ev])"
  proof (rule order_ok_step [where pc = "pc1 s"])
    show "order_ok (worker_next 10 beginSema1 X Y r1 endSema1) False (pc1 s) (events_of Thread1 tr)"
      using assms(1) nb by (simp add: inv_order1_def)
  next
    assume "events_of Thread1 tr = []"
    with assms(1) born have "pc1 s = W_srand" by (auto simp: inv_order1_def order_ok_def)
    with assms(2) show "pc1 s = W_srand \<and> (\<exists>n. ev = Srand n) \<and> pc1 s' = W_affinity"
      by (auto simp: thread1_step_def)
  next
    fix l assume "after_worker l = Some (pc1 s)"
    with assms(2) show "worker_next 10 beginSema1 X Y r1 endSema1 l ev
        \<and> after_worker ev = Some (pc1 s')"
      by (cases l)
         (auto simp: thread1_step_def sem_post_Some sem_wait_Some is_rand_def rand_def
               split: if_splits)
  qed
  with nb mpc show ?thesis by (simp add: inv_order1_def)
qed

lemma inv_order2_thread2:
  assumes "inv_order2 (tr, s)" "thread2_step e s = Some (ev, s')"
  shows "inv_order2 (tr @ [(Run Thread2, ev)], s')"
proof -
  from assms(2) have born: "pc2 s \<noteq> W_unborn" by (auto simp: thread2_step_def)
  from assms(2) have mpc: "mpc s' = mpc s" by (simp add: thread2_step_frame)
  from assms(1) born have nb: "\<not> before_create2 (mpc s)"
    unfolding inv_order2_def by (auto dest: order_ok_not_before)
  have "order_ok (worker_next 1 beginSema2 Y X r2 endSema2) False (pc2 s')
          (events_of Thread2 tr @ [ev])"
  proof (rule order_ok_step [where pc = "pc2 s"])
    show "order_ok (worker_next 1 beginSema2 Y X r2 endSema2) False (pc2 s) (events_of Thread2 tr)"
      using assms(1) nb by (simp add: inv_order2_def)
  next
    assume "events_of Thread2 tr = []"
    with assms(1) born have "pc2 s = W_srand" by (auto simp: inv_order2_def order_ok_def)
    with assms(2) show "pc2 s = W_srand \<and> (\<exists>n. ev = Srand n) \<and> pc2 s' = W_affinity"
      by (auto simp: thread2_step_def)
  next
    fix l assume "after_worker l = Some (pc2 s)"
    with assms(2) show "worker_next 1 beginSema2 Y X r2 endSema2 l ev
        \<and> after_worker ev = Some (pc2 s')"
      by (cases l)
         (auto simp: thread2_step_def sem_post_Some sem_wait_Some is_rand_def rand_def
               split: if_splits)
  qed
  with nb mpc show ?thesis by (simp add: inv_order2_def)
qed

lemma inv_order1_main:
  assumes "inv_order1 (tr, s)" "main_step e s = Some (ev, s')"
  shows "inv_order1 (tr @ [(Run Main_thread, ev)], s')"
proof (cases "mpc s = M_create1")
  case True
  with assms(2) have "mpc s' = M_create2" "pc1 s' = W_srand \<or> pc1 s' = pc1 s"
    by (auto simp: main_step_def)
  with assms(1) True show ?thesis
    by (auto simp: inv_order1_def dest: order_ok_create)
next
  case False
  with assms(2) have "pc1 s' = pc1 s" "before_create1 (mpc s') \<longrightarrow> before_create1 (mpc s)"
    by (cases "mpc s";
        clarsimp simp: main_step_def sem_post_Some sem_wait_Some split: if_splits)+
  with assms(1) show ?thesis
    by (auto simp: inv_order1_def intro: order_ok_same)
qed

lemma inv_order2_main:
  assumes "inv_order2 (tr, s)" "main_step e s = Some (ev, s')"
  shows "inv_order2 (tr @ [(Run Main_thread, ev)], s')"
proof (cases "mpc s = M_create2")
  case True
  with assms(2) have "mpc s' = M_locals" "pc2 s' = W_srand \<or> pc2 s' = pc2 s"
    by (auto simp: main_step_def)
  with assms(1) True show ?thesis
    by (auto simp: inv_order2_def dest: order_ok_create)
next
  case False
  with assms(2) have "pc2 s' = pc2 s" "before_create2 (mpc s') \<longrightarrow> before_create2 (mpc s)"
    by (cases "mpc s";
        clarsimp simp: main_step_def sem_post_Some sem_wait_Some split: if_splits)+
  with assms(1) show ?thesis
    by (auto simp: inv_order2_def intro: order_ok_same)
qed

lemma inv_order1_other:
  assumes "inv_order1 (tr, s)" "a \<noteq> Run Thread1" "a \<noteq> Run Main_thread"
    and "pc1 s' = pc1 s" "mpc s' = mpc s"
  shows "inv_order1 (tr @ [(a, ev)], s')"
  using assms by (simp add: inv_order1_def)

lemma inv_order2_other:
  assumes "inv_order2 (tr, s)" "a \<noteq> Run Thread2" "a \<noteq> Run Main_thread"
    and "pc2 s' = pc2 s" "mpc s' = mpc s"
  shows "inv_order2 (tr @ [(a, ev)], s')"
  using assms by (simp add: inv_order2_def)

lemma inv_order_step:
  assumes "inv_order (tr, s)" "step e a s = Some (ev, s')"
  shows "inv_order (tr @ [(a, ev)], s')"
proof -
  from assms(1) have m: "inv_order_main (tr, s)" and w1: "inv_order1 (tr, s)"
    and w2: "inv_order2 (tr, s)"
    by (simp_all add: inv_order_def)
  show ?thesis
  proof (cases a)
    case (Run t)
    show ?thesis
    proof (cases t)
      case Main_thread
      with Run assms(2) have st: "main_step e s = Some (ev, s')"
        by (simp add: step_def thread_step_def)
      show ?thesis
        unfolding inv_order_def Run Main_thread
        using inv_order_main_main [OF m st] inv_order1_main [OF w1 st] inv_order2_main [OF w2 st]
        by simp
    next
      case Thread1
      with Run assms(2) have st: "thread1_step e s = Some (ev, s')"
        by (simp add: step_def thread_step_def)
      note fr = thread1_step_frame [OF st]
      have "inv_order_main (tr @ [(Run Thread1, ev)], s')"
        by (rule inv_order_main_other [OF m]) (use fr in simp_all)
      moreover have "inv_order2 (tr @ [(Run Thread1, ev)], s')"
        by (rule inv_order2_other [OF w2]) (use fr in simp_all)
      ultimately show ?thesis
        unfolding inv_order_def Run Thread1 using inv_order1_thread1 [OF w1 st] by simp
    next
      case Thread2
      with Run assms(2) have st: "thread2_step e s = Some (ev, s')"
        by (simp add: step_def thread_step_def)
      note fr = thread2_step_frame [OF st]
      have "inv_order_main (tr @ [(Run Thread2, ev)], s')"
        by (rule inv_order_main_other [OF m]) (use fr in simp_all)
      moreover have "inv_order1 (tr @ [(Run Thread2, ev)], s')"
        by (rule inv_order1_other [OF w1]) (use fr in simp_all)
      ultimately show ?thesis
        unfolding inv_order_def Run Thread2 using inv_order2_thread2 [OF w2 st] by simp
    qed
  next
    case (Flush t)
    with assms(2) have st: "flush t s = Some (ev, s')" by (simp add: step_def)
    note fr = flush_frame [OF st]
    have "inv_order_main (tr @ [(Flush t, ev)], s')"
      by (rule inv_order_main_other [OF m]) (use fr in simp_all)
    moreover have "inv_order1 (tr @ [(Flush t, ev)], s')"
      by (rule inv_order1_other [OF w1]) (use fr in simp_all)
    moreover have "inv_order2 (tr @ [(Flush t, ev)], s')"
      by (rule inv_order2_other [OF w2]) (use fr in simp_all)
    ultimately show ?thesis
      unfolding inv_order_def Flush by simp
  qed
qed

lemma inv_order_exec1: "inv_order c \<Longrightarrow> inv_order (exec1 e c a)"
  by (cases c; cases "step e a (snd c)") (auto simp: exec1_def intro: inv_order_step)

lemma inv_order_exec: "inv_order c \<Longrightarrow> inv_order (exec e sched c)"
  unfolding exec_def by (induction sched arbitrary: c) (simp_all add: inv_order_exec1)

lemma inv_order_run: "inv_order (run e sched)"
  unfolding run_def by (rule inv_order_exec [OF inv_order_init])

section \<open>What the events touch and carry\<close>

lemma event_ok_main:
  assumes "main_step e s = Some (ev, s')"
  shows "event_ok (Run Main_thread, ev)"
  using assms
  by (cases "mpc s";
      clarsimp simp: main_step_def sem_post_Some sem_wait_Some event_ok_def touched_def
                     carried_def split: if_splits)

lemma event_ok_thread1:
  assumes "inv_val s" "thread1_step e s = Some (ev, s')"
  shows "event_ok (Run Thread1, ev)"
  using assms(2) load_val [OF assms(1), of Thread1 Y]
  by (cases "pc1 s";
      clarsimp simp: thread1_step_def sem_post_Some sem_wait_Some event_ok_def touched_def
                     carried_def rand_def split: if_splits)

lemma event_ok_thread2:
  assumes "inv_val s" "thread2_step e s = Some (ev, s')"
  shows "event_ok (Run Thread2, ev)"
  using assms(2) load_val [OF assms(1), of Thread2 X]
  by (cases "pc2 s";
      clarsimp simp: thread2_step_def sem_post_Some sem_wait_Some event_ok_def touched_def
                     carried_def rand_def split: if_splits)

lemma event_ok_flush:
  assumes "inv_val s" "flush t s = Some (ev, s')"
  shows "event_ok (Flush t, ev)"
proof -
  from assms(2) obtain p rest where b: "buf s t = p # rest" and ev: "ev = Commit (fst p) (snd p)"
    unfolding flush_Some by blast
  from assms(1) b have "may_write t (fst p) \<and> (snd p = 0 \<or> snd p = 1)"
    unfolding inv_val_def by (metis list.set_intros(1))
  then show ?thesis by (simp add: ev event_ok_def touched_def carried_def)
qed

lemma event_ok_step:
  assumes "inv_val s" "step e a s = Some (ev, s')"
  shows "event_ok (a, ev)"
proof (cases a)
  case (Run t)
  show ?thesis
  proof (cases t)
    case Main_thread
    with Run assms(2) have "main_step e s = Some (ev, s')"
      by (simp add: step_def thread_step_def)
    then show ?thesis unfolding Run Main_thread by (rule event_ok_main)
  next
    case Thread1
    with Run assms(2) have "thread1_step e s = Some (ev, s')"
      by (simp add: step_def thread_step_def)
    with assms(1) show ?thesis unfolding Run Thread1 by (rule event_ok_thread1)
  next
    case Thread2
    with Run assms(2) have "thread2_step e s = Some (ev, s')"
      by (simp add: step_def thread_step_def)
    with assms(1) show ?thesis unfolding Run Thread2 by (rule event_ok_thread2)
  qed
next
  case (Flush t)
  with assms(2) have "flush t s = Some (ev, s')" by (simp add: step_def)
  with assms(1) show ?thesis unfolding Flush by (rule event_ok_flush)
qed

lemma inv_trace_exec1: "inv_trace c \<Longrightarrow> inv_trace (exec1 e c a)"
  by (cases c; cases "step e a (snd c)")
     (auto simp: exec1_def inv_trace_def intro: inv_val_step event_ok_step)

lemma inv_trace_exec: "inv_trace c \<Longrightarrow> inv_trace (exec e sched c)"
  unfolding exec_def by (induction sched arbitrary: c) (simp_all add: inv_trace_exec1)

lemma inv_trace_run: "inv_trace (run e sched)"
  unfolding run_def by (rule inv_trace_exec) (simp add: inv_trace_def inv_val_init)

text \<open>An extended schedule extends the run by one scheduling decision.\<close>

lemma run_snoc: "run e (sched @ [a]) = exec1 e (run e sched) a"
  by (simp add: run_def exec_def)

lemma exec1_Some:
  "step e a s = Some (ev, s') \<Longrightarrow> exec1 e (tr, s) a = (tr @ [(a, ev)], s')"
  by (simp add: exec1_def)

lemma exec1_None: "step e a s = None \<Longrightarrow> exec1 e (tr, s) a = (tr, s)"
  by (simp add: exec1_def)

section \<open>Facts about every run\<close>

lemma run_facts:
  assumes "run e sched = (tr, s)"
  shows "inv_main (tr, s)" "inv_w1 (tr, s)" "inv_w2 (tr, s)" "inv_val s" "inv_sc e (tr, s)"
  using inv_run [of e sched] assms by (simp_all add: inv_def)

text \<open>Once \<open>main\<close> has both done signals, each worker has stored, loaded and posted.\<close>

lemma after_both_waits:
  assumes "run e sched = (tr, s)" "mpc s = M_check \<or> mpc s = M_incr"
  shows "written Thread1 X tr = Suc (completed tr)" "written Thread1 r1 tr = Suc (completed tr)"
    "written Thread2 Y tr = Suc (completed tr)" "written Thread2 r2 tr = Suc (completed tr)"
    "pc1 s = W_wait \<or> idle (pc1 s)" "idle (pc2 s)"
    "buf s Main_thread = []" "buf s Thread1 = []" "buf s Thread2 = []"
  using run_facts(1-3) [OF assms(1)] assms(2)
  by (auto simp: inv_main_def inv_w1_def inv_w2_def worker_ok_False phases)

lemma sint_of_nat_small: "n < 2 ^ 31 \<Longrightarrow> sint (of_nat n :: cint) = int n"
  by (simp add: signed_of_nat signed_take_bit_int_eq_self)

text \<open>What one more scheduling decision does to the locals of \<open>main\<close> and to its output.\<close>

lemma main_locals_step:
  assumes "main_step e s = Some (ev, s')" "mpc s \<noteq> M_locals"
  shows "(if mpc s = M_check \<and> load Main_thread r1 s = 0 \<and> load Main_thread r2 s = 0
          then ev = Check True \<and> detected s' = detected s + 1 \<and>
               out s' = out s @ [ReordersDetected (detected s + 1) (iterations s)]
          else ev \<noteq> Check True \<and> detected s' = detected s \<and>
               (mpc s \<noteq> M_printf \<longrightarrow> out s' = out s)) \<and>
         (if mpc s = M_incr then ev = Incr \<and> iterations s' = iterations s + 1
          else ev \<noteq> Incr \<and> iterations s' = iterations s)"
  using assms
  by (cases "mpc s";
      clarsimp simp: main_step_def sem_post_Some sem_wait_Some split: if_splits)

lemma other_locals_step:
  assumes "step e a s = Some (ev, s')" "a \<noteq> Run Main_thread"
  shows "detected s' = detected s \<and> iterations s' = iterations s \<and> out s' = out s
         \<and> mpc s' = mpc s"
proof (cases a)
  case (Run t)
  with assms show ?thesis
    by (cases t)
       (auto simp: step_def thread_step_def dest: thread1_step_frame thread2_step_frame)
next
  case (Flush t)
  with assms show ?thesis by (auto simp: step_def dest: flush_frame)
qed

section \<open>The violation counter\<close>

text \<open>
  C1. Take any run that has reached the trial loop and any one further scheduling
  decision. If the decision runs \<open>main\<close> at its check and both result cells are 0, then
  the step is a positive check, \<open>detected\<close> grows by exactly 1 and one report line with
  the new value of \<open>detected\<close> and the current value of \<open>iterations\<close> is appended to the
  output. In every other case \<open>detected\<close> and the output are unchanged. At every moment
  \<open>detected\<close> is the number of positive checks so far, which is the number of report
  lines printed and at most the number of checks, of which there is at most one per
  trial; read as a C \<open>int\<close> it is that number as long as fewer than \<open>2 ^ 31\<close> checks have
  been made, so it never decreases.
\<close>

theorem detection_per_trial:
  "case run e sched of (tr, s) \<Rightarrow> case run e (sched @ [a]) of (tr', s') \<Rightarrow>
     \<not> startup (mpc s) \<longrightarrow>
       (if a = Run Main_thread \<and> mpc s = M_check \<and> mem s r1 = 0 \<and> mem s r2 = 0
        then tr' = tr @ [(a, Check True)] \<and>
             detected s' = detected s + 1 \<and>
             out s' = out s @ [ReordersDetected (detected s + 1) (iterations s)] \<and>
             detections tr' = Suc (detections tr)
        else detected s' = detected s \<and> out s' = out s \<and> detections tr' = detections tr) \<and>
       detected s = of_nat (detections tr) \<and> reports (out s) = detections tr \<and>
       detections tr \<le> checks tr \<and> checks tr \<le> Suc (completed tr) \<and>
       (checks tr < 2 ^ 31 \<longrightarrow> sint (detected s) = int (detections tr))"
proof (cases "run e sched")
  case (Pair tr s)
  note f = run_facts [OF Pair]
  obtain tr' s' where next_c: "run e (sched @ [a]) = (tr', s')" by (cases "run e (sched @ [a])")
  then have ex: "exec1 e (tr, s) a = (tr', s')" by (simp add: run_snoc Pair)
  show ?thesis
  proof (cases "startup (mpc s)")
    case True
    then show ?thesis unfolding Pair next_c prod.case by blast
  next
    case False
    with f(1) have m: "detected s = of_nat (detections tr)" "reports (out s) = detections tr"
      "detections tr \<le> checks tr" "checks tr = completed tr + past_check (mpc s)"
      "mpc s = M_check \<longrightarrow> buf s Main_thread = []"
      by (simp_all add: inv_main_def)
    from m(4) have le: "checks tr \<le> Suc (completed tr)" by (simp add: phases)
    have rd: "sint (detected s) = int (detections tr)" if "checks tr < 2 ^ 31"
      using that m(1,3) by (simp add: sint_of_nat_small)
    have stp: "if a = Run Main_thread \<and> mpc s = M_check \<and> mem s r1 = 0 \<and> mem s r2 = 0
        then tr' = tr @ [(a, Check True)] \<and>
             detected s' = detected s + 1 \<and>
             out s' = out s @ [ReordersDetected (detected s + 1) (iterations s)] \<and>
             detections tr' = Suc (detections tr)
        else detected s' = detected s \<and> out s' = out s \<and> detections tr' = detections tr"
    proof (cases "step e a s")
      case None
      with ex have same: "tr' = tr" "s' = s" by (simp_all add: exec1_def)
      from None have "\<not> (a = Run Main_thread \<and> mpc s = M_check)"
        by (auto simp: step_def thread_step_def main_step_def)
      with same show ?thesis by auto
    next
      case (Some p)
      then obtain ev s1 where st: "step e a s = Some (ev, s1)" by (cases p) simp
      with ex have c': "tr' = tr @ [(a, ev)]" "s' = s1" by (simp_all add: exec1_def)
      show ?thesis
      proof (cases "a = Run Main_thread")
        case True
        with st have ms: "main_step e s = Some (ev, s1)" by (simp add: step_def thread_step_def)
        from False have "mpc s \<noteq> M_locals" "mpc s \<noteq> M_printf" by auto
        from main_locals_step [OF ms this(1)] this(2) m(5) c' True show ?thesis
          by (auto simp: counters split: if_splits)
      next
        case False
        from other_locals_step [OF st False] c' False show ?thesis
          by (simp add: counters)
      qed
    qed
    have "detected s = of_nat (detections tr) \<and> reports (out s) = detections tr \<and>
       detections tr \<le> checks tr \<and> checks tr \<le> Suc (completed tr) \<and>
       (checks tr < 2 ^ 31 \<longrightarrow> sint (detected s) = int (detections tr))"
      using m(1-3) le rd by blast
    with stp show ?thesis unfolding Pair next_c prod.case by blast
  qed
qed

theorem detection_per_trial_witness:
  "mpc (snd (run (env_of TSO) sched_reordered)) = M_check \<and>
   mem (snd (run (env_of TSO) sched_reordered)) r1 = 0 \<and>
   mem (snd (run (env_of TSO) sched_reordered)) r2 = 0 \<and>
   detected (snd (run (env_of TSO) sched_reordered)) = 0 \<and>
   detected (snd (run (env_of TSO) (sched_reordered @ [Run Main_thread]))) = 1 \<and>
   out (snd (run (env_of TSO) (sched_reordered @ [Run Main_thread])))
     = [NumberOfProcessors 16, ReordersDetected 1 1] \<and>
   sint (detected (snd (run (env_of TSO) sched_reordered))) = 0"
proof -
  have a: "mpc (snd (run (env_of TSO) sched_reordered)) = M_check"
    "mem (snd (run (env_of TSO) sched_reordered)) r1 = 0"
    "mem (snd (run (env_of TSO) sched_reordered)) r2 = 0"
    "detected (snd (run (env_of TSO) sched_reordered)) = 0"
    "iterations (snd (run (env_of TSO) sched_reordered)) = 1"
    "out (snd (run (env_of TSO) sched_reordered)) = [NumberOfProcessors 16]"
    "checks (fst (run (env_of TSO) sched_reordered)) = 0"
    "detections (fst (run (env_of TSO) sched_reordered)) = 0"
    by code_simp+
  from detection_per_trial [where e = "env_of TSO" and sched = sched_reordered
      and a = "Run Main_thread"] a
  show ?thesis
    by (simp add: split_def)
qed

section \<open>Sequential consistency excludes the outcome (0, 0)\<close>

text \<open>
  C2. Under the sequentially consistent memory model, in every run, that is for every
  interleaving of the statements of the three threads: once both workers have done the
  load of the current trial, at least one of the two result cells holds 1; when \<open>main\<close>
  is at its check, it does not read 0 from both; no check ever finds a violation and no
  report line is ever printed.
\<close>

theorem sc_excludes_both_zero:
  "case run e sched of (tr, s) \<Rightarrow>
     mm e = SC \<longrightarrow>
       (written Thread1 r1 tr = Suc (completed tr) \<and> written Thread2 r2 tr = Suc (completed tr)
          \<longrightarrow> mem s r1 = 1 \<or> mem s r2 = 1) \<and>
       (mpc s = M_check \<longrightarrow>
          (mem s r1 = 1 \<or> mem s r2 = 1) \<and>
          \<not> (load Main_thread r1 s = 0 \<and> load Main_thread r2 s = 0)) \<and>
       detections tr = 0 \<and> reports (out s) = 0"
proof (cases "run e sched")
  case (Pair tr s)
  note f = run_facts [OF Pair]
  show ?thesis
  proof (cases "mm e")
    case TSO
    with Pair show ?thesis by simp
  next
    case SC
    with f(5) have sc:
      "written Thread1 r1 tr = Suc (completed tr) \<and> written Thread2 r2 tr = Suc (completed tr)
         \<longrightarrow> mem s r1 = 1 \<or> mem s r2 = 1"
      "detections tr = 0" "buf s Main_thread = []"
      by (simp_all add: inv_sc_def)
    from f(1) sc(2) have out: "reports (out s) = 0" by (simp add: inv_main_def)
    have chk: "mem s r1 = 1 \<or> mem s r2 = 1" if "mpc s = M_check"
      using sc(1) after_both_waits(2,4) [OF Pair] that by simp
    have "\<not> (load Main_thread r1 s = 0 \<and> load Main_thread r2 s = 0)" if "mpc s = M_check"
      using chk [OF that] sc(3) by auto
    with chk sc out Pair SC show ?thesis by simp
  qed
qed

theorem sc_excludes_both_zero_witness:
  "mm (env_of SC) = SC \<and>
   mpc (snd (run (env_of SC) sched_sequential)) = M_check \<and>
   mem (snd (run (env_of SC) sched_sequential)) r1 = 0 \<and>
   mem (snd (run (env_of SC) sched_sequential)) r2 = 1 \<and>
   detections (fst (run (env_of SC) sched_sequential)) = 0"
proof -
  have a: "mm (env_of SC) = SC" "mpc (snd (run (env_of SC) sched_sequential)) = M_check"
    "mem (snd (run (env_of SC) sched_sequential)) r1 = 0"
    by code_simp+
  from sc_excludes_both_zero [of "env_of SC" sched_sequential] a show ?thesis
    by (simp add: split_def)
qed

section \<open>The barrier between trials\<close>

text \<open>
  C5. In every run, at every moment: \<open>main\<close> has reset \<open>X\<close> (and \<open>Y\<close>) at most once
  more often than it has received the done signal of worker 1, and of worker 2, so its
  reset number N+1 comes after it has received N done signals of each; every done signal
  it received was posted by that worker after the load of that trial; a worker has made
  no more stores than \<open>main\<close> has made resets. When \<open>main\<close> is at a reset statement, or
  about to post the first start signal, both workers are outside their transaction,
  their store buffers are empty, all four semaphores are zero, and each has done exactly
  one transaction per completed trial.
\<close>

theorem trials_do_not_overlap:
  "case run e sched of (tr, s) \<Rightarrow>
     resets X tr \<le> Suc (received endSema1 tr) \<and> resets X tr \<le> Suc (received endSema2 tr) \<and>
     resets Y tr \<le> Suc (received endSema1 tr) \<and> resets Y tr \<le> Suc (received endSema2 tr) \<and>
     received endSema1 tr \<le> posted Thread1 endSema1 tr \<and>
     received endSema2 tr \<le> posted Thread2 endSema2 tr \<and>
     posted Thread1 endSema1 tr \<le> written Thread1 r1 tr \<and>
     posted Thread2 endSema2 tr \<le> written Thread2 r2 tr \<and>
     written Thread1 X tr \<le> resets Y tr \<and> written Thread2 Y tr \<le> resets Y tr \<and>
     (mpc s = M_reset_X \<or> mpc s = M_reset_Y \<or> mpc s = M_post_begin1 \<longrightarrow>
        idle (pc1 s) \<and> idle (pc2 s) \<and> buf s Thread1 = [] \<and> buf s Thread2 = [] \<and>
        sems s beginSema1 = 0 \<and> sems s endSema1 = 0 \<and>
        sems s beginSema2 = 0 \<and> sems s endSema2 = 0 \<and>
        received endSema1 tr = completed tr \<and> received endSema2 tr = completed tr \<and>
        written Thread1 r1 tr = completed tr \<and> written Thread2 r2 tr = completed tr)"
proof (cases "run e sched")
  case (Pair tr s)
  note f = run_facts [OF Pair]
  from f(1) have m:
    "resets X tr = completed tr + past_reset_X (mpc s)"
    "resets Y tr = completed tr + past_reset_Y (mpc s)"
    "received endSema1 tr = completed tr + past_wait_end1 (mpc s)"
    "received endSema2 tr = completed tr + past_wait_end2 (mpc s)"
    by (simp_all add: inv_main_def)
  have c1: "posted Thread1 endSema1 tr \<le> written Thread1 r1 tr"
    "written Thread1 r1 tr \<le> written Thread1 X tr" "completed tr \<le> posted Thread1 endSema1 tr"
    using f(2) unfolding inv_w1_def by (auto dest: worker_ok_counts)
  have c2: "posted Thread2 endSema2 tr \<le> written Thread2 r2 tr"
    "written Thread2 r2 tr \<le> written Thread2 Y tr" "completed tr \<le> posted Thread2 endSema2 tr"
    using f(3) unfolding inv_w2_def by (auto dest: worker_ok_counts)
  have r1: "received endSema1 tr \<le> posted Thread1 endSema1 tr
            \<and> written Thread1 X tr \<le> resets Y tr"
    using f(2) m c1
    by (cases "mpc s"; cases "pc1 s"; auto simp: inv_w1_def worker_ok_def phases)
  have r2: "received endSema2 tr \<le> posted Thread2 endSema2 tr
            \<and> written Thread2 Y tr \<le> resets Y tr"
    using f(3) m c2
    by (cases "mpc s"; cases "pc2 s"; auto simp: inv_w2_def worker_ok_def phases)
  have q: "idle (pc1 s) \<and> idle (pc2 s) \<and> buf s Thread1 = [] \<and> buf s Thread2 = [] \<and>
        sems s beginSema1 = 0 \<and> sems s endSema1 = 0 \<and>
        sems s beginSema2 = 0 \<and> sems s endSema2 = 0 \<and>
        received endSema1 tr = completed tr \<and> received endSema2 tr = completed tr \<and>
        written Thread1 r1 tr = completed tr \<and> written Thread2 r2 tr = completed tr"
    if "mpc s = M_reset_X \<or> mpc s = M_reset_Y \<or> mpc s = M_post_begin1"
    using f(2,3) m that
    by (auto simp: inv_w1_def inv_w2_def worker_ok_False phases)
  have "resets X tr \<le> Suc (received endSema1 tr) \<and> resets X tr \<le> Suc (received endSema2 tr) \<and>
     resets Y tr \<le> Suc (received endSema1 tr) \<and> resets Y tr \<le> Suc (received endSema2 tr)"
    using m by (cases "mpc s"; simp add: phases)
  with r1 r2 c1(1) c2(1) q Pair show ?thesis by simp
qed

theorem trials_do_not_overlap_witness:
  "mpc (snd (run (env_of TSO) (sched_reordered @ replicate 2 (Run Main_thread)))) = M_reset_X \<and>
   resets X (fst (run (env_of TSO) (sched_reordered @ replicate 2 (Run Main_thread)))) = 1 \<and>
   received endSema1 (fst (run (env_of TSO) (sched_reordered @ replicate 2 (Run Main_thread)))) = 1 \<and>
   idle (pc1 (snd (run (env_of TSO) (sched_reordered @ replicate 2 (Run Main_thread)))))"
proof -
  have a: "mpc (snd (run (env_of TSO) (sched_reordered @ replicate 2 (Run Main_thread)))) = M_reset_X"
    "resets X (fst (run (env_of TSO) (sched_reordered @ replicate 2 (Run Main_thread)))) = 1"
    "received endSema1 (fst (run (env_of TSO) (sched_reordered @ replicate 2 (Run Main_thread)))) = 1"
    by code_simp+
  from trials_do_not_overlap [of "env_of TSO" "sched_reordered @ replicate 2 (Run Main_thread)"] a
  show ?thesis
    by (simp add: split_def)
qed

section \<open>The result cells hold 0 or 1\<close>

text \<open>
  C6. In every state of every run, under either memory model, each of the four cells
  holds 0 or 1, so the pair of result cells \<open>(r1, r2)\<close> is one of \<open>(0,0)\<close>, \<open>(0,1)\<close>,
  \<open>(1,0)\<close>, \<open>(1,1)\<close>, in memory and as \<open>main\<close> reads it; and every value an event of the
  run stored, loaded or committed was 0 or 1.
\<close>

theorem result_cells_zero_or_one:
  "case run e sched of (tr, s) \<Rightarrow>
     (mem s r1, mem s r2) \<in> {(0, 0), (0, 1), (1, 0), (1, 1)} \<and>
     (load Main_thread r1 s, load Main_thread r2 s) \<in> {(0, 0), (0, 1), (1, 0), (1, 1)} \<and>
     list_all (\<lambda>p. carried (snd p) \<in> {None, Some 0, Some 1}) tr"
proof (cases "run e sched")
  case (Pair tr s)
  from inv_trace_run [of e sched] Pair have v: "inv_val s" and t: "list_all event_ok tr"
    by (simp_all add: inv_trace_def)
  from v have "mem s r1 = 0 \<or> mem s r1 = 1" "mem s r2 = 0 \<or> mem s r2 = 1"
    by (simp_all add: inv_val_def)
  moreover note load_val [OF v, of Main_thread r1] load_val [OF v, of Main_thread r2]
  moreover have "list_all (\<lambda>p. carried (snd p) \<in> {None, Some 0, Some 1}) tr"
    using t by (induction tr) (auto simp: event_ok_def split: option.splits)
  ultimately show ?thesis using Pair by auto
qed

theorem result_cells_zero_or_one_witness:
  "mem (snd (run (env_of TSO) sched_reordered)) r1 = 0 \<and>
   mem (snd (run (env_of TSO) sched_reordered)) r2 = 0 \<and>
   mem (snd (run (env_of SC) sched_sequential)) r1 = 0 \<and>
   mem (snd (run (env_of SC) sched_sequential)) r2 = 1 \<and>
   (mem (snd (run (env_of TSO) sched_reordered)) r1, mem (snd (run (env_of TSO) sched_reordered)) r2)
     \<in> {(0, 0), (0, 1), (1, 0), (1, 1)}"
proof -
  have a: "mem (snd (run (env_of TSO) sched_reordered)) r1 = 0"
    "mem (snd (run (env_of TSO) sched_reordered)) r2 = 0"
    "mem (snd (run (env_of SC) sched_sequential)) r1 = 0"
    "mem (snd (run (env_of SC) sched_sequential)) r2 = 1"
    by code_simp+
  from result_cells_zero_or_one [of "env_of TSO" sched_reordered] a show ?thesis
    by (simp add: split_def)
qed

section \<open>The trial index\<close>

text \<open>
  C10. The initialiser at line 141 sets \<open>iterations\<close> to 1 before the first trial. From
  then on, at every moment of every run, \<open>iterations\<close> is one more than the number of
  completed trials (as a C \<open>int\<close>, below \<open>2 ^ 31\<close>); it changes only in the increment
  that ends a trial, by 1. So the report printed by the check of trial number N, the
  trial after N - 1 completed ones, carries the index N, and the first trial has index 1.
\<close>

theorem trial_index_one_based:
  "case run e sched of (tr, s) \<Rightarrow> case run e (sched @ [Run Main_thread]) of (tr', s') \<Rightarrow>
     (mpc s = M_locals \<longrightarrow> iterations s' = 1 \<and> completed tr' = 0 \<and> mpc s' = M_reset_X) \<and>
     (\<not> startup (mpc s) \<longrightarrow>
        iterations s = of_nat (Suc (completed tr)) \<and>
        (Suc (completed tr) < 2 ^ 31 \<longrightarrow> sint (iterations s) = int (Suc (completed tr))) \<and>
        (mpc s \<noteq> M_incr \<longrightarrow> iterations s' = iterations s \<and> completed tr' = completed tr) \<and>
        (mpc s = M_incr \<longrightarrow>
           iterations s' = iterations s + 1 \<and> completed tr' = Suc (completed tr)) \<and>
        (mpc s = M_check \<and> mem s r1 = 0 \<and> mem s r2 = 0 \<longrightarrow>
           out s' = out s @ [ReordersDetected (detected s + 1) (of_nat (Suc (completed tr)))]))"
proof (cases "run e sched")
  case (Pair tr s)
  note f = run_facts [OF Pair]
  obtain tr' s' where next_c: "run e (sched @ [Run Main_thread]) = (tr', s')"
    by (cases "run e (sched @ [Run Main_thread])")
  then have ex: "exec1 e (tr, s) (Run Main_thread) = (tr', s')" by (simp add: run_snoc Pair)
  have loc: "iterations s' = 1 \<and> completed tr' = 0 \<and> mpc s' = M_reset_X" if "mpc s = M_locals"
  proof -
    from that f(1) have "completed tr = 0" by (simp add: inv_main_def)
    with that ex show ?thesis
      by (auto simp: exec1_def step_def thread_step_def main_step_def counters)
  qed
  have loop: "iterations s = of_nat (Suc (completed tr)) \<and>
        (Suc (completed tr) < 2 ^ 31 \<longrightarrow> sint (iterations s) = int (Suc (completed tr))) \<and>
        (mpc s \<noteq> M_incr \<longrightarrow> iterations s' = iterations s \<and> completed tr' = completed tr) \<and>
        (mpc s = M_incr \<longrightarrow>
           iterations s' = iterations s + 1 \<and> completed tr' = Suc (completed tr)) \<and>
        (mpc s = M_check \<and> mem s r1 = 0 \<and> mem s r2 = 0 \<longrightarrow>
           out s' = out s @ [ReordersDetected (detected s + 1) (of_nat (Suc (completed tr)))])"
    if ns: "\<not> startup (mpc s)"
  proof -
    from ns f(1) have it: "iterations s = of_nat (Suc (completed tr))"
      and b: "mpc s = M_check \<longrightarrow> buf s Main_thread = []"
      by (simp_all add: inv_main_def)
    have rd: "sint (iterations s) = int (Suc (completed tr))" if "Suc (completed tr) < 2 ^ 31"
      unfolding it using that by (rule sint_of_nat_small)
    have "(mpc s \<noteq> M_incr \<longrightarrow> iterations s' = iterations s \<and> completed tr' = completed tr) \<and>
        (mpc s = M_incr \<longrightarrow>
           iterations s' = iterations s + 1 \<and> completed tr' = Suc (completed tr)) \<and>
        (mpc s = M_check \<and> mem s r1 = 0 \<and> mem s r2 = 0 \<longrightarrow>
           out s' = out s @ [ReordersDetected (detected s + 1) (iterations s)])"
    proof (cases "main_step e s")
      case None
      with ex have "tr' = tr" "s' = s" by (simp_all add: exec1_def step_def thread_step_def)
      moreover from None have "mpc s \<noteq> M_incr" "mpc s \<noteq> M_check"
        by (auto simp: main_step_def)
      ultimately show ?thesis by simp
    next
      case (Some p)
      then obtain ev s1 where ms: "main_step e s = Some (ev, s1)" by (cases p) simp
      with ex have c': "tr' = tr @ [(Run Main_thread, ev)]" "s' = s1"
        by (simp_all add: exec1_def step_def thread_step_def)
      from ns have "mpc s \<noteq> M_locals" by auto
      from main_locals_step [OF ms this] b c' show ?thesis
        by (auto simp: counters split: if_splits)
    qed
    with it rd show ?thesis by (simp only:) blast
  qed
  from loc loop show ?thesis unfolding Pair next_c prod.case by blast
qed

theorem trial_index_one_based_witness:
  "mpc (snd (run (env_of TSO) sched_reordered)) = M_check \<and>
   completed (fst (run (env_of TSO) sched_reordered)) = 0 \<and>
   sint (iterations (snd (run (env_of TSO) sched_reordered))) = 1 \<and>
   out (snd (run (env_of TSO) (sched_reordered @ [Run Main_thread])))
     = [NumberOfProcessors 16, ReordersDetected 1 1]"
proof -
  have a: "mpc (snd (run (env_of TSO) sched_reordered)) = M_check"
    "mem (snd (run (env_of TSO) sched_reordered)) r1 = 0"
    "mem (snd (run (env_of TSO) sched_reordered)) r2 = 0"
    "detected (snd (run (env_of TSO) sched_reordered)) = 0"
    "out (snd (run (env_of TSO) sched_reordered)) = [NumberOfProcessors 16]"
    "completed (fst (run (env_of TSO) sched_reordered)) = 0"
    by code_simp+
  from trial_index_one_based [where e = "env_of TSO" and sched = sched_reordered] a
  show ?thesis
    by (simp add: split_def)
qed

end
